theory Spec2Isabelle
  imports Main
begin

section \<open>The process and its environment\<close>

text \<open>
  The shell of \<^verbatim>\<open>shell.c\<close> is a single process that talks to the operating system:
  it writes to two streams, changes its working directory, allocates and frees
  heap blocks, forks and waits. The state the program changes is the record
  \<open>world\<close>; what the operating system answers is the record \<open>os\<close>, a set of
  oracles that the program cannot influence. The fields \<open>w_allocs\<close>, \<open>w_forks\<close> and
  \<open>w_waits\<close> count the allocation requests and the calls of \<^verbatim>\<open>fork\<close> and
  \<^verbatim>\<open>waitpid\<close> made so far.

  A heap block is identified by a number. Only the set of live blocks is kept in the
  state; the contents of a block travel with the value that the model passes around.
\<close>

datatype diag =
    Text string      \<comment> \<open>\<^verbatim>\<open>fprintf(stderr, ...)\<close> with the text written\<close>
  | Perror string    \<comment> \<open>\<^verbatim>\<open>perror(prefix)\<close>: the prefix, followed by the text of \<^verbatim>\<open>errno\<close>\<close>

record world =
  w_stdout :: string
  w_stderr :: "diag list"
  w_cwd :: string
  w_live :: "nat list"
  w_allocs :: nat
  w_forks :: nat
  w_waits :: nat

text \<open>
  The status that \<^verbatim>\<open>waitpid\<close> stores, as the macros \<^verbatim>\<open>WIFEXITED\<close> and
  \<^verbatim>\<open>WIFSIGNALED\<close> of \<^verbatim>\<open>sys/wait.h\<close> read it.
\<close>

datatype wstatus = WExited nat | WSignaled nat | WStopped nat

fun WIFEXITED :: "wstatus \<Rightarrow> bool" where
  "WIFEXITED (WExited c) = True"
| "WIFEXITED _ = False"

fun WIFSIGNALED :: "wstatus \<Rightarrow> bool" where
  "WIFSIGNALED (WSignaled s) = True"
| "WIFSIGNALED _ = False"

text \<open>
  What \<^verbatim>\<open>fork\<close> answers in the process under study. \<open>InChild ok\<close>: the process is
  the new child (\<^verbatim>\<open>pid == 0\<close>) and \<open>ok\<close> says whether \<^verbatim>\<open>execvp\<close> will find the
  program. \<open>InParent st evs\<close>: the process is the parent, \<open>st\<close> is the indeterminate
  initial content of the local variable \<^verbatim>\<open>status\<close>, and \<open>evs\<close> are the successive
  answers of \<^verbatim>\<open>waitpid\<close>: \<open>Some s\<close> stores \<open>s\<close> in \<^verbatim>\<open>status\<close>, \<open>None\<close> is a failed
  call that leaves \<^verbatim>\<open>status\<close> as it was. After the last answer \<^verbatim>\<open>waitpid\<close> blocks
  forever.
\<close>

datatype fork_result =
    ForkFailed
  | InChild bool
  | InParent wstatus "wstatus option list"

record os =
  alloc_ok :: "nat \<Rightarrow> bool"
  chdir_to :: "string \<Rightarrow> string \<Rightarrow> string option"
  fork_res :: "nat \<Rightarrow> fork_result"

text \<open>
  \<open>alloc_ok os n\<close>: the allocation request number \<open>n\<close> of the process succeeds.
  \<open>chdir_to os cwd path\<close>: the directory that \<^verbatim>\<open>chdir(path)\<close> leads to from \<open>cwd\<close>,
  or \<open>None\<close> when the call fails. \<open>fork_res os n\<close>: the answer to call number \<open>n\<close> of
  \<^verbatim>\<open>fork\<close>.

  A function of the program either returns a value, or the process stops inside it:
  by \<^verbatim>\<open>exit\<close>, by replacing its image, by blocking forever, or by leaving the
  behaviour that C defines.
\<close>

datatype stop =
    Exit int
  | ExecImage "string list"
  | Hang
  | Undefined

datatype 'a outcome =
    Done 'a world
  | Stopped stop world

definition EXIT_SUCCESS :: int where
  "EXIT_SUCCESS = 0"

definition EXIT_FAILURE :: int where
  "EXIT_FAILURE = 1"

definition INT_MAX :: nat where
  "INT_MAX = 2147483647"

text \<open>
  \<open>EXIT_SUCCESS\<close>, \<open>EXIT_FAILURE\<close> and \<open>INT_MAX\<close> come from the headers of the C
  library; these are their values on the platforms with a 32-bit \<^verbatim>\<open>int\<close>. The source
  writes the execution status as the numbers 1 and 0, and the loop goes on while
  the status is not 0; the specification calls them CONTINUE and TERMINATE.
\<close>

definition CONTINUE :: int where
  "CONTINUE = 1"

definition TERMINATE :: int where
  "TERMINATE = 0"

subsection \<open>Library calls\<close>

definition printf :: "string \<Rightarrow> world \<Rightarrow> world" where
  "printf s w = w\<lparr>w_stdout := w_stdout w @ s\<rparr>"

definition fprintf_stderr :: "string \<Rightarrow> world \<Rightarrow> world" where
  "fprintf_stderr s w = w\<lparr>w_stderr := w_stderr w @ [Text s]\<rparr>"

definition perror :: "string \<Rightarrow> world \<Rightarrow> world" where
  "perror s w = w\<lparr>w_stderr := w_stderr w @ [Perror s]\<rparr>"

text \<open>
  \<^verbatim>\<open>malloc\<close>: the block number on success, \<open>None\<close> for the null pointer.
  \<^verbatim>\<open>realloc\<close>: on success the old block is gone and a new one is live; on failure
  the old block stays live. \<^verbatim>\<open>free\<close> is only ever called on a live block.
\<close>

definition malloc :: "os \<Rightarrow> world \<Rightarrow> nat option \<times> world" where
  "malloc os w =
     (if alloc_ok os (w_allocs w)
      then (Some (w_allocs w),
            w\<lparr>w_live := w_allocs w # w_live w, w_allocs := Suc (w_allocs w)\<rparr>)
      else (None, w\<lparr>w_allocs := Suc (w_allocs w)\<rparr>))"

definition realloc :: "os \<Rightarrow> nat \<Rightarrow> world \<Rightarrow> nat option \<times> world" where
  "realloc os p w =
     (if alloc_ok os (w_allocs w)
      then (Some (w_allocs w),
            w\<lparr>w_live := w_allocs w # remove1 p (w_live w), w_allocs := Suc (w_allocs w)\<rparr>)
      else (None, w\<lparr>w_allocs := Suc (w_allocs w)\<rparr>))"

definition free :: "nat \<Rightarrow> world \<Rightarrow> world" where
  "free p w = w\<lparr>w_live := remove1 p (w_live w)\<rparr>"

subsection \<open>C strings and \<^verbatim>\<open>strtok\<close>\<close>

text \<open>
  A \<open>string\<close> stands for the bytes of a buffer up to its terminating NUL, which is not
  part of the list. A NUL inside the list ends the C string there, as it does in C:
  \<open>c_str\<close> is what the string functions see.
\<close>

definition NUL :: char where
  "NUL = CHR 0x00"

definition c_str :: "string \<Rightarrow> string" where
  "c_str s = takeWhile (\<lambda>c. c \<noteq> NUL) s"

definition at_end :: "string \<Rightarrow> bool" where
  "at_end s = (case s of [] \<Rightarrow> True | c # _ \<Rightarrow> c = NUL)"

text \<open>
  \<^verbatim>\<open>strtok\<close> keeps a pointer between calls; the model passes it explicitly.
  \<open>strtok s delim\<close> scans from \<open>s\<close>: it skips the delimiters, returns \<open>None\<close> (the null
  pointer) at the end of the string, and otherwise the token together with the place
  to go on from: just after the delimiter that ended the token, which \<^verbatim>\<open>strtok\<close>
  overwrites with NUL, or the end of the string.
\<close>

definition strtok :: "string \<Rightarrow> string \<Rightarrow> (string \<times> string) option" where
  "strtok s delim =
     (let s1 = dropWhile (\<lambda>c. c \<in> set delim \<and> c \<noteq> NUL) s in
      if at_end s1 then None
      else
        let token = takeWhile (\<lambda>c. c \<notin> set delim \<and> c \<noteq> NUL) s1;
            e = dropWhile (\<lambda>c. c \<notin> set delim \<and> c \<noteq> NUL) s1
        in Some (token, if at_end e then e else tl e))"

section \<open>The tokenizer\<close>

definition LSH_TOK_BUFSIZE :: nat where
  "LSH_TOK_BUFSIZE = 64"

definition LSH_TOK_DELIM :: string where
  "LSH_TOK_DELIM = [CHR '' '', CHR 0x09, CHR 0x0D, CHR 0x0A, CHR 0x07]"

text \<open>
  The array \<^verbatim>\<open>tokens\<close>: one cell per \<^verbatim>\<open>char*\<close>. A cell that was never written
  holds whatever \<^verbatim>\<open>malloc\<close> left there. A token is a pointer into the line buffer;
  the model keeps the characters it points to.
\<close>

datatype cell = Garbage | Null | Tok string

text \<open>
  The \<^verbatim>\<open>while\<close> loop of \<^verbatim>\<open>lsh_split_line\<close>. The first argument is the variable
  \<^verbatim>\<open>token\<close> with the pointer that \<^verbatim>\<open>strtok\<close> saved; \<open>ptr\<close> and \<open>tokens\<close> are the
  block and the content of the array. A store outside the array and an \<^verbatim>\<open>int\<close> that
  leaves its range are undefined behaviour; \<open>pos\<close> and \<open>buffsize\<close> are never negative.
\<close>

function split_loop ::
  "os \<Rightarrow> (string \<times> string) option \<Rightarrow> nat \<Rightarrow> nat \<Rightarrow> nat \<Rightarrow> cell list \<Rightarrow> world
     \<Rightarrow> (nat \<times> cell list) outcome" where
  "split_loop os None pos buffsize ptr tokens w =
     (if pos < length tokens then Done (ptr, tokens[pos := Null]) w
      else Stopped Undefined w)"
| "split_loop os (Some (token, save)) pos buffsize ptr tokens w =
     (if \<not> pos < length tokens then Stopped Undefined w
      else
        let tokens1 = tokens[pos := Tok token];
            pos1 = pos + 1
        in
          if pos1 \<ge> buffsize then
            (if buffsize + LSH_TOK_BUFSIZE > INT_MAX then Stopped Undefined w
             else
               let buffsize1 = buffsize + LSH_TOK_BUFSIZE in
               (case realloc os ptr w of
                  (None, w1) \<Rightarrow>
                    Stopped (Exit EXIT_FAILURE)
                      (fprintf_stderr ''lsh: allocation error\<newline>'' w1)
                | (Some ptr1, w1) \<Rightarrow>
                    split_loop os (strtok save LSH_TOK_DELIM) pos1 buffsize1 ptr1
                      (tokens1 @ replicate (buffsize1 - length tokens1) Garbage) w1))
          else split_loop os (strtok save LSH_TOK_DELIM) pos1 buffsize ptr tokens1 w)"
  by pat_completeness auto

termination split_loop
proof (relation "measure (\<lambda>(os, tk, pos, buffsize, ptr, tokens, w).
        case tk of None \<Rightarrow> 0 | Some (t, save) \<Rightarrow> Suc (length save))")
  have shorter: "length r < length s" if "strtok s delim = Some (t, r)" for s delim t r
  proof -
    let ?d = "\<lambda>c. c \<in> set delim \<and> c \<noteq> NUL"
    let ?n = "\<lambda>c. c \<notin> set delim \<and> c \<noteq> NUL"
    let ?s1 = "dropWhile ?d s"
    let ?e = "dropWhile ?n ?s1"
    from that have ne: "\<not> at_end ?s1"
      and r: "r = (if at_end ?e then ?e else tl ?e)"
      by (auto simp: strtok_def Let_def split: if_splits)
    from ne obtain c cs where s1: "?s1 = c # cs" and c: "c \<noteq> NUL"
      by (auto simp: at_end_def split: list.splits)
    have "c \<notin> set delim"
      using hd_dropWhile [of ?d s] s1 c by auto
    with c s1 have "?e = dropWhile ?n cs" by simp
    then have "length ?e \<le> length cs"
      by (simp add: length_dropWhile_le)
    moreover have "length r \<le> length ?e"
      using r by simp
    moreover have "length ?s1 \<le> length s"
      by (rule length_dropWhile_le)
    ultimately show ?thesis using s1 by simp
  qed
  show "wf (measure (\<lambda>(os, tk, pos, buffsize, ptr, tokens, w).
        case tk of None \<Rightarrow> 0 | Some (t, save) \<Rightarrow> Suc (length save)))"
    by simp
  show "((os, strtok save LSH_TOK_DELIM, pos1, buffsize1, ptr1,
          tokens1 @ replicate (buffsize1 - length tokens1) Garbage, w1),
         (os, Some (token, save), pos, buffsize, ptr, tokens, w))
        \<in> measure (\<lambda>(os, tk, pos, buffsize, ptr, tokens, w).
             case tk of None \<Rightarrow> 0 | Some (t, save) \<Rightarrow> Suc (length save))"
    for os save pos1 buffsize1 ptr1 tokens1 w1 token pos buffsize ptr tokens w
    by (auto split: option.splits dest: shorter)
  show "((os, strtok save LSH_TOK_DELIM, pos1, buffsize, ptr, tokens1, w),
         (os, Some (token, save), pos, buffsize, ptr, tokens, w))
        \<in> measure (\<lambda>(os, tk, pos, buffsize, ptr, tokens, w).
             case tk of None \<Rightarrow> 0 | Some (t, save) \<Rightarrow> Suc (length save))"
    for os save pos1 buffsize ptr tokens1 w token pos tokens
    by (auto split: option.splits dest: shorter)
qed

text \<open>
  \<^verbatim>\<open>lsh_split_line\<close>: the array is allocated with room for 64 pointers, the loop
  fills it, and the cell after the last token receives the null pointer.
\<close>

definition lsh_split_line :: "os \<Rightarrow> string \<Rightarrow> world \<Rightarrow> (nat \<times> cell list) outcome" where
  "lsh_split_line os line w =
     (let buffsize = LSH_TOK_BUFSIZE; pos = 0 in
      case malloc os w of
        (None, w1) \<Rightarrow>
          Stopped (Exit EXIT_FAILURE) (fprintf_stderr ''lsh: allocation error\<newline>'' w1)
      | (Some ptr, w1) \<Rightarrow>
          split_loop os (strtok line LSH_TOK_DELIM) pos buffsize ptr
            (replicate buffsize Garbage) w1)"

text \<open>
  What a consumer of a \<^verbatim>\<open>char**\<close> sees: the tokens up to the first null pointer.
  Reading a cell that was never written, or past the end of the array, is \<open>None\<close>.
\<close>

fun c_argv :: "cell list \<Rightarrow> string list option" where
  "c_argv [] = None"
| "c_argv (Garbage # cs) = None"
| "c_argv (Null # cs) = Some []"
| "c_argv (Tok t # cs) = map_option (Cons t) (c_argv cs)"

section \<open>The builtins\<close>

definition builtin_str :: "string list" where
  "builtin_str = [''cd'', ''help'', ''exit'']"

definition lsh_num_builtins :: nat where
  "lsh_num_builtins = length builtin_str"

text \<open>
  An argument vector \<^verbatim>\<open>char **args\<close> is the list of its strings before the null
  pointer. \<^verbatim>\<open>args[1]\<close> of a vector with one string is that null pointer; of the
  empty vector it is a cell after the terminator, which nothing has written.
\<close>

definition lsh_cd :: "os \<Rightarrow> string list \<Rightarrow> world \<Rightarrow> int outcome" where
  \<open>lsh_cd os args w =
     (case args of
        [] \<Rightarrow> Stopped Undefined w
      | [a0] \<Rightarrow> Done 1 (fprintf_stderr ''lsh: expected argument to "cd"\<newline>'' w)
      | a0 # a1 # _ \<Rightarrow>
          (case chdir_to os (w_cwd w) a1 of
             None \<Rightarrow> Done 1 (perror ''lsh'' w)
           | Some d \<Rightarrow> Done 1 (w\<lparr>w_cwd := d\<rparr>)))\<close>

function help_loop :: "nat \<Rightarrow> world \<Rightarrow> world" where
  "help_loop i w =
     (if i < lsh_num_builtins
      then help_loop (i + 1) (printf ('' '' @ builtin_str ! i @ ''\<newline>'') w)
      else w)"
  by pat_completeness auto
termination
  by (relation "measure (\<lambda>(i, w). lsh_num_builtins - i)") auto

definition lsh_help :: "os \<Rightarrow> string list \<Rightarrow> world \<Rightarrow> int outcome" where
  "lsh_help os args w =
     (let w1 = printf ''Jermaine's LSH\<newline>'' w;
          w2 = printf ''Type program names and arguments, and hit enter\<newline>'' w1;
          w3 = printf ''The following are built in:\<newline>'' w2;
          w4 = help_loop 0 w3;
          w5 = printf ''Use the man command for information on other programs.\<newline>'' w4
      in Done 1 w5)"

definition lsh_exit :: "os \<Rightarrow> string list \<Rightarrow> world \<Rightarrow> int outcome" where
  "lsh_exit os args w = Done 0 w"

definition builtin_func :: "(os \<Rightarrow> string list \<Rightarrow> world \<Rightarrow> int outcome) list" where
  "builtin_func = [lsh_cd, lsh_help, lsh_exit]"

section \<open>The launcher\<close>

text \<open>
  The \<^verbatim>\<open>do ... while\<close> loop around \<^verbatim>\<open>waitpid\<close>. The result of \<^verbatim>\<open>waitpid\<close> is not
  looked at; the loop goes on until \<^verbatim>\<open>status\<close> says exited or signaled.
\<close>

fun wait_loop :: "wstatus \<Rightarrow> wstatus option list \<Rightarrow> world \<Rightarrow> wstatus outcome" where
  "wait_loop status [] w = Stopped Hang (w\<lparr>w_waits := Suc (w_waits w)\<rparr>)"
| "wait_loop status (ev # evs) w =
     (let w1 = w\<lparr>w_waits := Suc (w_waits w)\<rparr>;
          status1 = (case ev of None \<Rightarrow> status | Some s \<Rightarrow> s)
      in
        if \<not> WIFEXITED status1 \<and> \<not> WIFSIGNALED status1 then wait_loop status1 evs w1
        else Done status1 w1)"

text \<open>
  In the child \<^verbatim>\<open>execvp\<close> does not return when it succeeds. With an empty vector
  \<^verbatim>\<open>args[0]\<close> is the null pointer, which \<^verbatim>\<open>execvp\<close> must not be given.
\<close>

definition lsh_launch :: "os \<Rightarrow> string list \<Rightarrow> world \<Rightarrow> int outcome" where
  "lsh_launch os args w =
     (let w1 = w\<lparr>w_forks := Suc (w_forks w)\<rparr> in
      case fork_res os (w_forks w) of
        InChild ok \<Rightarrow>
          (if args = [] then Stopped Undefined w1
           else if ok then Stopped (ExecImage args) w1
           else Stopped (Exit EXIT_FAILURE) (perror ''lsh'' w1))
      | ForkFailed \<Rightarrow> Done 1 (perror ''lsh'' w1)
      | InParent status evs \<Rightarrow>
          (case wait_loop status evs w1 of
             Stopped s w2 \<Rightarrow> Stopped s w2
           | Done status1 w2 \<Rightarrow> Done 1 w2))"

section \<open>Dispatch\<close>

text \<open>
  The \<^verbatim>\<open>for\<close> loop of \<^verbatim>\<open>lsh_execute\<close> over the table of builtins; \<open>a0\<close> is
  \<^verbatim>\<open>args[0]\<close>, and \<^verbatim>\<open>strcmp\<close> returns 0 on equal strings.
\<close>

function execute_loop :: "os \<Rightarrow> nat \<Rightarrow> string \<Rightarrow> string list \<Rightarrow> world \<Rightarrow> int outcome" where
  "execute_loop os i a0 args w =
     (if i < lsh_num_builtins
      then (if a0 = builtin_str ! i then (builtin_func ! i) os args w
            else execute_loop os (i + 1) a0 args w)
      else lsh_launch os args w)"
  by pat_completeness auto
termination
  by (relation "measure (\<lambda>(os, i, a0, args, w). lsh_num_builtins - i)") auto

fun lsh_execute :: "os \<Rightarrow> string list \<Rightarrow> world \<Rightarrow> int outcome" where
  "lsh_execute os [] w = Done 1 w"
| "lsh_execute os (a0 # as) w = execute_loop os 0 a0 (a0 # as) w"

section \<open>Reading a line and the loop\<close>

text \<open>
  What one call of \<^verbatim>\<open>getline\<close> finds on the standard input: a line (with its
  newline, if it has one), the end of the input, or a read error. \<^verbatim>\<open>getline\<close>
  allocates the buffer, since \<^verbatim>\<open>line\<close> is the null pointer when it is called; when
  the call fails the flag says whether it had already done so. The buffer takes the
  next block number. Whether \<^verbatim>\<open>getline\<close> finds the memory it needs is part of the
  answer, not of \<open>alloc_ok\<close>: a call that does not find it is a read failure.
\<close>

datatype read_event = GotLine string | EndOfInput bool | ReadFailure bool

definition getline_buffer :: "world \<Rightarrow> world" where
  "getline_buffer w = w\<lparr>w_live := w_allocs w # w_live w, w_allocs := Suc (w_allocs w)\<rparr>"

fun lsh_read_line :: "read_event \<Rightarrow> world \<Rightarrow> (nat \<times> string) outcome" where
  "lsh_read_line (GotLine s) w = Done (w_allocs w, s) (getline_buffer w)"
| "lsh_read_line (EndOfInput b) w =
     Stopped (Exit EXIT_SUCCESS) (if b then getline_buffer w else w)"
| "lsh_read_line (ReadFailure b) w =
     Stopped (Exit EXIT_FAILURE) (perror ''readline'' (if b then getline_buffer w else w))"

text \<open>
  The body of the \<^verbatim>\<open>do ... while\<close> loop of \<^verbatim>\<open>lsh_loop\<close>, for one answer of the
  standard input; its value is \<^verbatim>\<open>status\<close>.
\<close>

definition loop_body :: "os \<Rightarrow> read_event \<Rightarrow> world \<Rightarrow> int outcome" where
  "loop_body os ev w =
     (case lsh_read_line ev (printf ''> '' w) of
        Stopped s w1 \<Rightarrow> Stopped s w1
      | Done (lp, line) w1 \<Rightarrow>
          (case lsh_split_line os line w1 of
             Stopped s w2 \<Rightarrow> Stopped s w2
           | Done (ap, cells) w2 \<Rightarrow>
               (case c_argv cells of
                  None \<Rightarrow> Stopped Undefined w2
                | Some args \<Rightarrow>
                    (case lsh_execute os args w2 of
                       Stopped s w3 \<Rightarrow> Stopped s w3
                     | Done status w3 \<Rightarrow> Done status (free lp (free ap w3))))))"

text \<open>
  The loop consumes the answers of the standard input one by one. When there are no
  more, \<^verbatim>\<open>getline\<close> blocks forever after the prompt.
\<close>

fun lsh_loop :: "os \<Rightarrow> read_event list \<Rightarrow> world \<Rightarrow> unit outcome" where
  "lsh_loop os [] w = Stopped Hang (printf ''> '' w)"
| "lsh_loop os (ev # evs) w =
     (case loop_body os ev w of
        Stopped s w1 \<Rightarrow> Stopped s w1
      | Done status w1 \<Rightarrow> if status \<noteq> 0 then lsh_loop os evs w1 else Done () w1)"

text \<open>Returning from \<^verbatim>\<open>main\<close> ends the process with the returned code.\<close>

definition main :: "os \<Rightarrow> read_event list \<Rightarrow> world \<Rightarrow> stop \<times> world" where
  "main os stdin w =
     (case lsh_loop os stdin w of
        Done u w1 \<Rightarrow> (Exit EXIT_SUCCESS, w1)
      | Stopped s w1 \<Rightarrow> (s, w1))"

text \<open>
  Two notions for stating what the loop does. \<open>first_token line\<close> is the first token
  that \<^verbatim>\<open>strtok\<close> finds in the line, if any. \<open>run_prefix os pre w\<close> is the state
  reached from \<open>w\<close> after one iteration for each answer in \<open>pre\<close>, provided every one
  of them returns a status that lets the loop go on.
\<close>

definition first_token :: "string \<Rightarrow> string option" where
  "first_token line = map_option fst (strtok line LSH_TOK_DELIM)"

fun run_prefix :: "os \<Rightarrow> read_event list \<Rightarrow> world \<Rightarrow> world option" where
  "run_prefix os [] w = Some w"
| "run_prefix os (ev # evs) w =
     (case loop_body os ev w of
        Stopped s w1 \<Rightarrow> None
      | Done status w1 \<Rightarrow> if status \<noteq> 0 then run_prefix os evs w1 else None)"

section \<open>The vocabulary of the specification\<close>

text \<open>
  The specification speaks of whitespace-class characters (space, tab, carriage
  return, newline, bell) and of the maximal runs of other characters in a line. A
  maximal run starts at a position that holds a character outside the class and
  that is the first of the line or follows a character of the class; it extends as
  far as such characters go.
\<close>

definition whitespace :: "char \<Rightarrow> bool" where
  "whitespace c =
     (c = CHR '' '' \<or> c = CHR 0x09 \<or> c = CHR 0x0D \<or> c = CHR 0x0A \<or> c = CHR 0x07)"

definition run_starts :: "string \<Rightarrow> nat list" where
  "run_starts s =
     filter (\<lambda>i. \<not> whitespace (s ! i) \<and> (i = 0 \<or> whitespace (s ! (i - 1))))
       [0..<length s]"

definition run_at :: "string \<Rightarrow> nat \<Rightarrow> string" where
  "run_at s i = takeWhile (\<lambda>c. \<not> whitespace c) (drop i s)"

definition nonws_runs :: "string \<Rightarrow> string list" where
  "nonws_runs s = map (run_at s) (run_starts s)"

text \<open>
  The same runs, found in one pass from left to right; \<open>p\<close> says that a run may
  start at the head of the list.
\<close>

fun runs_scan :: "bool \<Rightarrow> string \<Rightarrow> string list" where
  "runs_scan p [] = []"
| "runs_scan p (c # cs) =
     (if whitespace c then runs_scan True cs
      else (if p then [takeWhile (\<lambda>c. \<not> whitespace c) (c # cs)] else []) @
           runs_scan False cs)"

text \<open>
  The tokens that the loop of \<^verbatim>\<open>lsh_split_line\<close> has still to store, given its
  variable \<^verbatim>\<open>token\<close> and the pointer saved by \<^verbatim>\<open>strtok\<close>.
\<close>

fun pending :: "(string \<times> string) option \<Rightarrow> string list" where
  "pending None = []"
| "pending (Some (token, save)) = token # nonws_runs (c_str save)"

text \<open>The output of \<^verbatim>\<open>lsh_help\<close>, as one string.\<close>

definition help_text :: string where
  "help_text =
     ''Jermaine's LSH\<newline>'' @
     ''Type program names and arguments, and hit enter\<newline>'' @
     ''The following are built in:\<newline>'' @
     '' cd\<newline>'' @ '' help\<newline>'' @ '' exit\<newline>'' @
     ''Use the man command for information on other programs.\<newline>''"

section \<open>Sample environments\<close>

definition w_start :: world where
  "w_start = \<lparr>w_stdout = [], w_stderr = [], w_cwd = ''/'', w_live = [],
     w_allocs = 0, w_forks = 0, w_waits = 0\<rparr>"

text \<open>
  Memory is plentiful, \<^verbatim>\<open>/tmp\<close> is the only directory that exists, and the first
  child stops once, is waited for in vain once, and exits with code 2; later calls
  of \<^verbatim>\<open>fork\<close> fail.
\<close>

definition os_sample :: os where
  "os_sample = \<lparr>
     alloc_ok = (\<lambda>n. True),
     chdir_to = (\<lambda>cwd path. if path = ''/tmp'' then Some ''/tmp'' else None),
     fork_res = (\<lambda>n. if n = 0
                      then InParent (WStopped 19) [Some (WStopped 19), None, Some (WExited 2)]
                      else ForkFailed)\<rparr>"

text \<open>The same, with no memory left for \<^verbatim>\<open>malloc\<close> and \<^verbatim>\<open>realloc\<close>.\<close>

definition os_no_memory :: os where
  "os_no_memory = os_sample\<lparr>alloc_ok := (\<lambda>n. False)\<rparr>"

text \<open>
  The same as \<open>os_sample\<close>, with memory for three blocks only; and the state after
  the command \<^verbatim>\<open>cd /tmp\<close> has been read and executed from \<open>w_start\<close>.
\<close>

definition os_short_memory :: os where
  "os_short_memory = os_sample\<lparr>alloc_ok := (\<lambda>n. n < 3)\<rparr>"

definition w_after_cd :: world where
  "w_after_cd = w_start\<lparr>w_stdout := ''> '', w_cwd := ''/tmp'', w_allocs := 2\<rparr>"

text \<open>
  A line as \<^verbatim>\<open>getline\<close> can deliver it, with a NUL byte between \<^verbatim>\<open>ls\<close> and
  \<^verbatim>\<open>-l\<close>.
\<close>

definition line_nul :: string where
  "line_nul = ''ls'' @ [CHR 0x00] @ ''-l /tmp\<newline>''"

text \<open>A line of 64 tokens: as many as the array first has room for.\<close>

definition line64 :: string where
  "line64 = concat (replicate 64 ''ab '')"

section \<open>Unfolding the loops over the table of builtins\<close>

declare execute_loop.simps [simp del]
declare help_loop.simps [simp del]

lemma lsh_num_builtins_3: "lsh_num_builtins = 3"
  by (simp add: lsh_num_builtins_def builtin_str_def)

lemma execute_loop_unfold:
  "execute_loop os 0 a0 args w =
     (if a0 = ''cd'' then lsh_cd os args w
      else if a0 = ''help'' then lsh_help os args w
      else if a0 = ''exit'' then lsh_exit os args w
      else lsh_launch os args w)"
proof -
  note n = lsh_num_builtins_3
  have e3: "execute_loop os (Suc (Suc (Suc 0))) a0 args w = lsh_launch os args w"
    by (subst execute_loop.simps) (simp add: n)
  have e2: "execute_loop os (Suc (Suc 0)) a0 args w =
      (if a0 = ''exit'' then lsh_exit os args w else lsh_launch os args w)"
    using e3 by (subst execute_loop.simps) (simp add: n builtin_str_def builtin_func_def)
  have e1: "execute_loop os (Suc 0) a0 args w =
      (if a0 = ''help'' then lsh_help os args w
       else if a0 = ''exit'' then lsh_exit os args w else lsh_launch os args w)"
    using e2 by (subst execute_loop.simps) (simp add: n builtin_str_def builtin_func_def)
  show ?thesis
    using e1 by (subst execute_loop.simps) (simp add: n builtin_str_def builtin_func_def)
qed

lemma help_loop_unfold:
  "help_loop 0 w =
     printf '' exit\<newline>'' (printf '' help\<newline>'' (printf '' cd\<newline>'' w))"
proof -
  note n = lsh_num_builtins_3
  have h3: "\<And>v. help_loop (Suc (Suc (Suc 0))) v = v"
    by (subst help_loop.simps) (simp add: n)
  have h2: "\<And>v. help_loop (Suc (Suc 0)) v = printf '' exit\<newline>'' v"
    by (subst help_loop.simps) (simp add: n h3 builtin_str_def)
  have h1: "\<And>v. help_loop (Suc 0) v = printf '' exit\<newline>'' (printf '' help\<newline>'' v)"
    by (subst help_loop.simps) (simp add: n h2 builtin_str_def)
  show ?thesis
    by (subst help_loop.simps) (simp add: n h1 builtin_str_def)
qed

section \<open>The claims about the builtins\<close>

text \<open>
  C5. For every token sequence whose first token is \<^verbatim>\<open>exit\<close>, the exit builtin
  returns TERMINATE and changes nothing, whatever the arguments are: the handler
  \<^verbatim>\<open>lsh_exit\<close> does so on any argument vector, and so does the dispatcher on any
  vector that begins with \<^verbatim>\<open>exit\<close>, with or without further arguments.
\<close>

theorem lsh_exit_terminate:
  "lsh_exit os args w = Done TERMINATE w \<and>
   lsh_execute os (''exit'' # rest) w = Done TERMINATE w"
  by (simp add: execute_loop_unfold lsh_exit_def TERMINATE_def)

theorem lsh_exit_terminate_witness:
  "lsh_exit os_sample [''exit'', ''anything'', ''here''] w_start = Done TERMINATE w_start \<and>
   lsh_execute os_sample [''exit''] w_start = Done TERMINATE w_start \<and>
   lsh_execute os_sample [''exit'', ''anything'', ''here''] w_start = Done TERMINATE w_start"
  using lsh_exit_terminate [of os_sample "[''exit'', ''anything'', ''here'']" w_start "[]"]
    lsh_exit_terminate [of os_sample "[]" w_start "[''anything'', ''here'']"]
  by simp

text \<open>
  C6. Every invocation of the help builtin returns CONTINUE and changes nothing but
  the standard output, to which it appends \<open>help_text\<close>: the fixed banner, then the
  names \<^verbatim>\<open>cd\<close>, \<^verbatim>\<open>help\<close>, \<^verbatim>\<open>exit\<close> in the order of the table, one per line, and
  a closing line.
\<close>

theorem lsh_help_output:
  "lsh_help os args w = Done CONTINUE (w\<lparr>w_stdout := w_stdout w @ help_text\<rparr>)"
  by (simp add: lsh_help_def help_loop_unfold printf_def help_text_def CONTINUE_def)

theorem lsh_help_output_witness:
  "lsh_help os_sample [''help''] w_start = Done CONTINUE (w_start\<lparr>w_stdout := help_text\<rparr>)"
  using lsh_help_output [of os_sample "[''help'']" w_start]
  by (simp add: w_start_def)

text \<open>
  C4. The cd builtin without an argument (the vector holds the command name only)
  writes the diagnostic \<^verbatim>\<open>lsh: expected argument to "cd"\<close> to the standard error
  and returns CONTINUE; nothing else changes, in particular not the working
  directory. With an argument for which \<^verbatim>\<open>chdir\<close> fails, it reports the error of
  the operating system with \<^verbatim>\<open>perror\<close> and returns CONTINUE, again with nothing
  else changed.
\<close>

theorem lsh_cd_errors:
  \<open>lsh_cd os [a0] w =
     Done CONTINUE (w\<lparr>w_stderr := w_stderr w @ [Text ''lsh: expected argument to "cd"\<newline>'']\<rparr>)
   \<and> (chdir_to os (w_cwd w) a1 = None \<longrightarrow>
        lsh_cd os (a0 # a1 # rest) w =
          Done CONTINUE (w\<lparr>w_stderr := w_stderr w @ [Perror ''lsh'']\<rparr>))\<close>
  by (simp add: lsh_cd_def fprintf_stderr_def perror_def CONTINUE_def)

theorem lsh_cd_errors_witness:
  \<open>chdir_to os_sample (w_cwd w_start) ''/nowhere'' = None \<and>
   lsh_cd os_sample [''cd'', ''/nowhere'', ''x''] w_start =
     Done CONTINUE (w_start\<lparr>w_stderr := [Perror ''lsh'']\<rparr>) \<and>
   lsh_cd os_sample [''cd''] w_start =
     Done CONTINUE (w_start\<lparr>w_stderr := [Text ''lsh: expected argument to "cd"\<newline>'']\<rparr>)\<close>
proof -
  have h: "chdir_to os_sample (w_cwd w_start) ''/nowhere'' = None"
    by (simp add: os_sample_def)
  show ?thesis
    using h lsh_cd_errors [of os_sample "''cd''" w_start "''/nowhere''" "[''x'']"]
    by (simp add: w_start_def)
qed

section \<open>The claim about the launcher\<close>

lemma wait_loop_waits:
  "wait_loop st evs w = Done st' w' \<Longrightarrow> w' = w\<lparr>w_waits := w_waits w'\<rparr> \<and> w_waits w < w_waits w'"
proof (induction evs arbitrary: st w)
  case Nil
  then show ?case by simp
next
  case (Cons ev evs)
  show ?case
  proof (cases "\<not> WIFEXITED (case ev of None \<Rightarrow> st | Some s \<Rightarrow> s) \<and>
                 \<not> WIFSIGNALED (case ev of None \<Rightarrow> st | Some s \<Rightarrow> s)")
    case True
    with Cons.prems have "wait_loop (case ev of None \<Rightarrow> st | Some s \<Rightarrow> s) evs
        (w\<lparr>w_waits := Suc (w_waits w)\<rparr>) = Done st' w'"
      by (simp add: Let_def)
    from Cons.IH [OF this] show ?thesis
      by (cases w, cases w') auto
  next
    case False
    with Cons.prems show ?thesis
      by (auto simp: Let_def)
  qed
qed

lemma wait_loop_returns:
  "Some s \<in> set evs \<Longrightarrow> WIFEXITED s \<or> WIFSIGNALED s \<Longrightarrow> \<exists>st' w'. wait_loop st evs w = Done st' w'"
proof (induction evs arbitrary: st w)
  case Nil
  then show ?case by simp
next
  case (Cons ev evs)
  show ?case
  proof (cases "ev = Some s")
    case True
    with Cons.prems show ?thesis by (auto simp: Let_def)
  next
    case False
    with Cons.prems have "Some s \<in> set evs" by simp
    from Cons.IH [OF this Cons.prems(2)] show ?thesis
      by (simp add: Let_def)
  qed
qed

text \<open>
  C1. In the shell process \<^verbatim>\<open>lsh_launch\<close> returns CONTINUE in every case in which
  it returns. When \<^verbatim>\<open>fork\<close> fails it reports the error with \<^verbatim>\<open>perror\<close> and returns
  CONTINUE with the count of \<^verbatim>\<open>waitpid\<close> calls unchanged. When the child was created
  and \<^verbatim>\<open>waitpid\<close> at some point delivers a status \<open>s\<close> that says exited or signaled,
  the wait ends and the launcher returns CONTINUE, whatever exit code or signal \<open>s\<close>
  carries. No returned value is ever different from CONTINUE.
\<close>

theorem lsh_launch_continue:
  "(fork_res os (w_forks w) = ForkFailed \<longrightarrow>
      lsh_launch os args w =
        Done CONTINUE (w\<lparr>w_stderr := w_stderr w @ [Perror ''lsh''], w_forks := Suc (w_forks w)\<rparr>))
   \<and> (fork_res os (w_forks w) = InParent st evs \<and> Some s \<in> set evs \<and>
        (WIFEXITED s \<or> WIFSIGNALED s) \<longrightarrow>
        (\<exists>n > w_waits w. lsh_launch os args w =
           Done CONTINUE (w\<lparr>w_forks := Suc (w_forks w), w_waits := n\<rparr>)))
   \<and> (lsh_launch os args w = Done r w' \<longrightarrow> r = CONTINUE)"
proof (intro conjI impI)
  assume "fork_res os (w_forks w) = ForkFailed"
  then show "lsh_launch os args w =
      Done CONTINUE (w\<lparr>w_stderr := w_stderr w @ [Perror ''lsh''], w_forks := Suc (w_forks w)\<rparr>)"
    by (simp add: lsh_launch_def perror_def CONTINUE_def)
next
  assume a: "fork_res os (w_forks w) = InParent st evs \<and> Some s \<in> set evs \<and>
      (WIFEXITED s \<or> WIFSIGNALED s)"
  let ?w1 = "w\<lparr>w_forks := Suc (w_forks w)\<rparr>"
  from a wait_loop_returns [of s evs st ?w1]
  obtain st' w2 where w: "wait_loop st evs ?w1 = Done st' w2" by blast
  from wait_loop_waits [OF this]
  have "w2 = w\<lparr>w_forks := Suc (w_forks w), w_waits := w_waits w2\<rparr>" "w_waits w < w_waits w2"
    by simp_all
  with a w show "\<exists>n > w_waits w. lsh_launch os args w =
      Done CONTINUE (w\<lparr>w_forks := Suc (w_forks w), w_waits := n\<rparr>)"
    by (auto simp: lsh_launch_def CONTINUE_def)
next
  assume "lsh_launch os args w = Done r w'"
  then show "r = CONTINUE"
    by (auto simp: lsh_launch_def CONTINUE_def Let_def
        split: fork_result.splits if_splits outcome.splits)
qed

theorem lsh_launch_continue_witness:
  "lsh_launch os_sample [''ls'', ''-l''] w_start = Done CONTINUE (w_start\<lparr>w_forks := 1, w_waits := 3\<rparr>) \<and>
   lsh_launch os_sample [''ls'', ''-l''] (w_start\<lparr>w_forks := 1\<rparr>) =
     Done CONTINUE (w_start\<lparr>w_stderr := [Perror ''lsh''], w_forks := 2\<rparr>)"
proof -
  have f: "fork_res os_sample (w_forks (w_start\<lparr>w_forks := 1\<rparr>)) = ForkFailed"
    by (simp add: os_sample_def)
  have p: "fork_res os_sample (w_forks w_start) =
        InParent (WStopped 19) [Some (WStopped 19), None, Some (WExited 2)] \<and>
      Some (WExited 2) \<in> set [Some (WStopped 19), None, Some (WExited 2)] \<and>
      (WIFEXITED (WExited 2) \<or> WIFSIGNALED (WExited 2))"
    by (simp add: os_sample_def w_start_def)
  have e: "lsh_launch os_sample [''ls'', ''-l''] w_start = Done 1 (w_start\<lparr>w_forks := 1, w_waits := 3\<rparr>)"
    by (simp add: lsh_launch_def os_sample_def w_start_def)
  from lsh_launch_continue [where os = os_sample and w = "w_start\<lparr>w_forks := 1\<rparr>"
      and args = "[''ls'', ''-l'']"] f
  have 1: "lsh_launch os_sample [''ls'', ''-l''] (w_start\<lparr>w_forks := 1\<rparr>) =
     Done CONTINUE (w_start\<lparr>w_stderr := [Perror ''lsh''], w_forks := 2\<rparr>)"
    by (simp add: w_start_def)
  from lsh_launch_continue [where os = os_sample and w = w_start and st = "WStopped 19"
      and evs = "[Some (WStopped 19), None, Some (WExited 2)]" and s = "WExited 2"
      and args = "[''ls'', ''-l'']" and r = 1 and w' = "w_start\<lparr>w_forks := 1, w_waits := 3\<rparr>"] p e
  have "(1::int) = CONTINUE" by blast
  with e 1 show ?thesis by simp
qed

section \<open>The tokenizer and the runs of the specification\<close>

subsection \<open>The runs of the specification, found in one pass\<close>

lemma whitespace_delim: "whitespace c \<longleftrightarrow> c \<in> set LSH_TOK_DELIM"
  by (auto simp: whitespace_def LSH_TOK_DELIM_def)

lemma whitespace_not_NUL: "whitespace c \<Longrightarrow> c \<noteq> NUL"
  by (auto simp: whitespace_def NUL_def)

lemma run_at_Suc: "run_at (c # cs) (Suc i) = run_at cs i"
  by (simp add: run_at_def)

lemma starts_scan:
  "map (run_at s)
     (filter (\<lambda>i. \<not> whitespace (s ! i) \<and> (if i = 0 then p else whitespace (s ! (i - 1))))
        [0..<length s]) = runs_scan p s"
proof (induction s arbitrary: p)
  case Nil
  show ?case by simp
next
  case (Cons c cs)
  define P where "P = (\<lambda>i. \<not> whitespace ((c # cs) ! i) \<and>
      (if i = 0 then p else whitespace ((c # cs) ! (i - 1))))"
  let ?Q = "\<lambda>i. \<not> whitespace (cs ! i) \<and>
      (if i = 0 then whitespace c else whitespace (cs ! (i - 1)))"
  have upt: "[0..<length (c # cs)] = 0 # map Suc [0..<length cs]"
    by (simp add: upt_conv_Cons map_Suc_upt del: upt_Suc)
  have P0: "P 0 \<longleftrightarrow> \<not> whitespace c \<and> p"
    by (simp add: P_def)
  have PQ: "P \<circ> Suc = ?Q"
  proof (rule ext)
    fix i show "(P \<circ> Suc) i = ?Q i" by (cases i) (simp_all add: P_def)
  qed
  have "filter P (map Suc [0..<length cs]) = map Suc (filter (P \<circ> Suc) [0..<length cs])"
    by (rule filter_map)
  then have "filter P (map Suc [0..<length cs]) = map Suc (filter ?Q [0..<length cs])"
    by (simp only: PQ)
  then have T: "map (run_at (c # cs)) (filter P (map Suc [0..<length cs])) =
      runs_scan (whitespace c) cs"
    using Cons.IH [of "whitespace c"] by (simp add: comp_def run_at_Suc)
  have "map (run_at (c # cs)) (filter P [0..<length (c # cs)]) = runs_scan p (c # cs)"
    unfolding upt using T by (simp add: P0 run_at_def)
  then show ?case
    unfolding P_def .
qed

lemma nonws_runs_scan: "nonws_runs s = runs_scan True s"
proof -
  have "(\<lambda>i. \<not> whitespace (s ! i) \<and> (i = 0 \<or> whitespace (s ! (i - 1)))) =
      (\<lambda>i. \<not> whitespace (s ! i) \<and> (if i = 0 then True else whitespace (s ! (i - 1))))"
    by auto
  then show ?thesis
    using starts_scan [of s True] by (simp add: nonws_runs_def run_starts_def)
qed

lemma runs_scan_ws: "\<forall>c \<in> set ds. whitespace c \<Longrightarrow> runs_scan True (ds @ s) = runs_scan True s"
  by (induction ds) simp_all

lemma runs_scan_in_run:
  "\<forall>c \<in> set t. \<not> whitespace c \<Longrightarrow> runs_scan False (t @ s) = runs_scan False s"
  by (induction t) simp_all

lemma runs_scan_token:
  assumes "t \<noteq> []" "\<forall>c \<in> set t. \<not> whitespace c"
  shows "runs_scan True (t @ s) = takeWhile (\<lambda>c. \<not> whitespace c) (t @ s) # runs_scan False s"
proof -
  from assms obtain c cs where t: "t = c # cs" by (cases t) auto
  with assms show ?thesis
    using runs_scan_in_run [of cs s] by simp
qed

lemma nonws_runs_nil: "\<forall>c \<in> set s. whitespace c \<Longrightarrow> nonws_runs s = []"
  using runs_scan_ws [of s "[]"] by (simp add: nonws_runs_scan)

lemma nonws_runs_length: "length (nonws_runs s) \<le> length s"
proof -
  have "length (run_starts s) \<le> length [0..<length s]"
    unfolding run_starts_def by (rule length_filter_le)
  then show ?thesis by (simp add: nonws_runs_def)
qed


subsection \<open>One call of \<^verbatim>\<open>strtok\<close> takes the first run\<close>

lemma c_str_append: "NUL \<notin> set xs \<Longrightarrow> c_str (xs @ ys) = xs @ c_str ys"
  by (induction xs) (auto simp: c_str_def)

lemma c_str_at_end: "at_end s \<Longrightarrow> c_str s = []"
  by (cases s) (simp_all add: at_end_def c_str_def)

lemma c_str_length: "length (c_str s) \<le> length s"
  by (simp add: c_str_def length_takeWhile_le)

lemma strtok_whitespace:
  "strtok s LSH_TOK_DELIM =
     (let s1 = dropWhile whitespace s in
      if at_end s1 then None
      else
        let token = takeWhile (\<lambda>c. \<not> whitespace c \<and> c \<noteq> NUL) s1;
            e = dropWhile (\<lambda>c. \<not> whitespace c \<and> c \<noteq> NUL) s1
        in Some (token, if at_end e then e else tl e))"
proof -
  have d: "(\<lambda>c. c \<in> set LSH_TOK_DELIM \<and> c \<noteq> NUL) = whitespace"
    using whitespace_delim whitespace_not_NUL by auto
  have n: "(\<lambda>c. c \<notin> set LSH_TOK_DELIM \<and> c \<noteq> NUL) = (\<lambda>c. \<not> whitespace c \<and> c \<noteq> NUL)"
    using whitespace_delim by auto
  show ?thesis
    unfolding strtok_def d n ..
qed

lemma pending_strtok: "pending (strtok s LSH_TOK_DELIM) = nonws_runs (c_str s)"
proof -
  let ?n = "\<lambda>c. \<not> whitespace c \<and> c \<noteq> NUL"
  define ds where "ds = takeWhile whitespace s"
  define s1 where "s1 = dropWhile whitespace s"
  define tok where "tok = takeWhile ?n s1"
  define e where "e = dropWhile ?n s1"
  have st: "strtok s LSH_TOK_DELIM =
      (if at_end s1 then None else Some (tok, if at_end e then e else tl e))"
    by (simp add: strtok_whitespace Let_def s1_def tok_def e_def)
  have ds_ws: "\<forall>c \<in> set ds. whitespace c"
    unfolding ds_def by (auto dest: set_takeWhileD)
  then have "NUL \<notin> set ds"
    using whitespace_not_NUL by blast
  moreover have "s = ds @ s1"
    by (simp add: ds_def s1_def)
  ultimately have "c_str s = ds @ c_str s1"
    using c_str_append [of ds s1] by simp
  then have skip: "nonws_runs (c_str s) = runs_scan True (c_str s1)"
    using runs_scan_ws [OF ds_ws] by (simp add: nonws_runs_scan)
  show ?thesis
  proof (cases "at_end s1")
    case True
    then show ?thesis
      using skip by (simp add: st c_str_at_end)
  next
    case False
    then obtain c cs where s1: "s1 = c # cs" and c: "c \<noteq> NUL"
      by (auto simp: at_end_def split: list.splits)
    have s1': "dropWhile whitespace s = c # cs"
      using s1 by (simp add: s1_def)
    have "\<not> whitespace (hd (dropWhile whitespace s))"
      by (rule hd_dropWhile) (simp add: s1')
    then have "\<not> whitespace c"
      by (simp add: s1')
    with c s1 have tok_ne: "tok \<noteq> []"
      by (simp add: tok_def)
    have tok_n: "\<forall>c \<in> set tok. \<not> whitespace c \<and> c \<noteq> NUL"
      unfolding tok_def by (auto dest: set_takeWhileD)
    then have tok_nw: "\<forall>c \<in> set tok. \<not> whitespace c"
      by blast
    have tw: "takeWhile (\<lambda>c. \<not> whitespace c) tok = tok"
      using tok_nw by (simp add: takeWhile_eq_all_conv)
    have "NUL \<notin> set tok"
      using tok_n by blast
    moreover have "s1 = tok @ e"
      by (simp add: tok_def e_def)
    ultimately have cs1: "c_str s1 = tok @ c_str e"
      using c_str_append [of tok e] by simp
    have run: "runs_scan True (c_str s1) =
        takeWhile (\<lambda>c. \<not> whitespace c) (tok @ c_str e) # runs_scan False (c_str e)"
      using runs_scan_token [OF tok_ne tok_nw, of "c_str e"] by (simp only: cs1)
    show ?thesis
    proof (cases "at_end e")
      case True
      then have "c_str e = []" by (rule c_str_at_end)
      with run tw have "runs_scan True (c_str s1) = [tok]"
        by simp
      with skip True False show ?thesis
        by (simp add: st c_str_at_end nonws_runs_scan)
    next
      case e: False
      then obtain x r where ex: "e = x # r" and x: "x \<noteq> NUL"
        by (auto simp: at_end_def split: list.splits)
      have ex': "dropWhile ?n s1 = x # r"
        using ex by (simp add: e_def)
      have "\<not> ?n (hd (dropWhile ?n s1))"
        by (rule hd_dropWhile) (simp add: ex')
      then have "\<not> ?n x"
        by (simp add: ex')
      with x have xw: "whitespace x" by simp
      from x ex have ce: "c_str e = x # c_str r"
        by (simp add: c_str_def)
      have "takeWhile (\<lambda>c. \<not> whitespace c) (tok @ x # c_str r) = tok"
        using tok_nw xw by (simp add: takeWhile_append2)
      with run ce xw have "runs_scan True (c_str s1) = tok # runs_scan True (c_str r)"
        by simp
      with skip e False ex show ?thesis
        by (simp add: st nonws_runs_scan)
    qed
  qed
qed


subsection \<open>The loop stores the runs and the terminator\<close>

lemma take_store: "pos < length tokens \<Longrightarrow>
    take (Suc pos) (tokens[pos := v] @ ys) = take pos tokens @ [v]"
  by (simp add: take_Suc_conv_app_nth)

lemma take_store0: "pos < length tokens \<Longrightarrow>
    take (Suc pos) (tokens[pos := v]) = take pos tokens @ [v]"
  by (metis take_store append_Nil2)

lemma split_loop_Done:
  assumes "split_loop os tk pos buffsize ptr tokens w = Done (ap, cells) w'"
  shows "pos + length (pending tk) < length cells \<and>
    take (pos + length (pending tk)) cells = take pos tokens @ map Tok (pending tk) \<and>
    cells ! (pos + length (pending tk)) = Null"
  using assms
proof (induction os tk pos buffsize ptr tokens w rule: split_loop.induct)
  case (1 os pos buffsize ptr tokens w)
  then show ?case
    by (auto split: if_splits)
next
  case (2 os token save pos buffsize ptr tokens w)
  let ?t1 = "tokens[pos := Tok token]"
  let ?next = "strtok save LSH_TOK_DELIM"
  from "2.prems" have pos: "pos < length tokens"
    by (auto split: if_splits)
  have pend: "pending (Some (token, save)) = token # pending ?next"
    by (simp add: pending_strtok)
  have step: "pos + 1 + length (pending ?next) < length cells \<and>
      take (pos + 1 + length (pending ?next)) cells = take (pos + 1) ts @ map Tok (pending ?next) \<and>
      cells ! (pos + 1 + length (pending ?next)) = Null \<Longrightarrow>
      take (pos + 1) ts = take pos tokens @ [Tok token] \<Longrightarrow> ?case" for ts
    unfolding pend by simp
  show ?case
  proof (cases "buffsize \<le> pos + 1")
    case True
    from "2.prems" pos True have ov: "\<not> INT_MAX < buffsize + LSH_TOK_BUFSIZE"
      by (auto simp: Let_def split: if_splits)
    from "2.prems" pos True ov obtain p1 w1 where r: "realloc os ptr w = (Some p1, w1)"
      by (cases "realloc os ptr w") (auto simp: Let_def split: option.splits)
    let ?ts = "?t1 @ replicate (buffsize + LSH_TOK_BUFSIZE - length ?t1) Garbage"
    from "2.prems" pos True ov r
    have rec: "split_loop os ?next (pos + 1) (buffsize + LSH_TOK_BUFSIZE) p1 ?ts w1 =
        Done (ap, cells) w'"
      by (simp add: Let_def)
    have "\<not> \<not> pos < length tokens" using pos by simp
    from "2.IH"(1) [OF this refl refl True ov refl r [symmetric] refl rec]
    show ?thesis
      by (rule step) (use pos in \<open>simp add: take_store0\<close>)
  next
    case False
    from "2.prems" pos False
    have rec: "split_loop os ?next (pos + 1) buffsize ptr ?t1 w = Done (ap, cells) w'"
      by (simp add: Let_def)
    have "\<not> \<not> pos < length tokens" using pos by simp
    from "2.IH"(2) [OF this refl refl False rec]
    show ?thesis
      by (rule step) (use pos in \<open>simp add: take_store0\<close>)
  qed
qed


lemma realloc_fields:
  "realloc os p w = (r, w1) \<Longrightarrow>
     w_allocs w1 = Suc (w_allocs w) \<and> w_stdout w1 = w_stdout w \<and> w_stderr w1 = w_stderr w \<and>
     w_cwd w1 = w_cwd w \<and> w_forks w1 = w_forks w \<and> w_waits w1 = w_waits w \<and>
     (case r of None \<Rightarrow> \<not> alloc_ok os (w_allocs w) \<and> w_live w1 = w_live w
      | Some q \<Rightarrow> alloc_ok os (w_allocs w) \<and> w_live w1 = q # remove1 p (w_live w))"
  by (auto simp: realloc_def split: if_splits)

lemma malloc_fields:
  "malloc os w = (r, w1) \<Longrightarrow>
     w_allocs w1 = Suc (w_allocs w) \<and> w_stdout w1 = w_stdout w \<and> w_stderr w1 = w_stderr w \<and>
     w_cwd w1 = w_cwd w \<and> w_forks w1 = w_forks w \<and> w_waits w1 = w_waits w \<and>
     (case r of None \<Rightarrow> \<not> alloc_ok os (w_allocs w) \<and> w_live w1 = w_live w
      | Some q \<Rightarrow> alloc_ok os (w_allocs w) \<and> w_live w1 = q # w_live w)"
  by (auto simp: malloc_def split: if_splits)

lemma split_loop_returns:
  assumes "\<forall>n \<ge> w_allocs w. alloc_ok os n"
    and "pos < length tokens" and "buffsize = length tokens"
    and "pos + length (pending tk) + LSH_TOK_BUFSIZE \<le> INT_MAX"
  shows "\<exists>ap cells w'. split_loop os tk pos buffsize ptr tokens w = Done (ap, cells) w'"
  using assms
proof (induction os tk pos buffsize ptr tokens w rule: split_loop.induct)
  case (1 os pos buffsize ptr tokens w)
  then show ?case by simp
next
  case (2 os token save pos buffsize ptr tokens w)
  let ?t1 = "tokens[pos := Tok token]"
  let ?next = "strtok save LSH_TOK_DELIM"
  note pos = "2.prems"(2)
  have pend: "pending (Some (token, save)) = token # pending ?next"
    by (simp add: pending_strtok)
  with "2.prems"(4)
  have bound: "pos + 1 + length (pending ?next) + LSH_TOK_BUFSIZE \<le> INT_MAX"
    by simp
  have nn: "\<not> \<not> pos < length tokens" using pos by simp
  show ?case
  proof (cases "buffsize \<le> pos + 1")
    case True
    with bound have ov: "\<not> INT_MAX < buffsize + LSH_TOK_BUFSIZE"
      by simp
    from "2.prems"(1) obtain p1 w1 where r: "realloc os ptr w = (Some p1, w1)"
      by (auto simp: realloc_def)
    from realloc_fields [OF r] "2.prems"(1) have a: "\<forall>n \<ge> w_allocs w1. alloc_ok os n"
      by simp
    let ?ts = "?t1 @ replicate (buffsize + LSH_TOK_BUFSIZE - length ?t1) Garbage"
    have len: "buffsize + LSH_TOK_BUFSIZE = length ?ts"
      using "2.prems"(3) by simp
    have p1: "pos + 1 < length ?ts"
      using pos "2.prems"(3) by (simp add: LSH_TOK_BUFSIZE_def)
    from "2.IH"(1) [OF nn refl refl True ov refl r [symmetric] refl a p1 len bound]
    show ?thesis
      using pos True ov r by (simp add: Let_def)
  next
    case False
    have p1: "pos + 1 < length ?t1"
      using False "2.prems"(3) by simp
    have len: "buffsize = length ?t1"
      using "2.prems"(3) by simp
    from "2.IH"(2) [OF nn refl refl False "2.prems"(1) p1 len bound]
    show ?thesis
      using pos False by (simp add: Let_def)
  qed
qed

lemma split_loop_frame:
  assumes "split_loop os tk pos buffsize ptr tokens w = Done (ap, cells) w'"
    and "w_live w = ptr # live"
  shows "w_live w' = ap # live \<and> w_stdout w' = w_stdout w \<and> w_stderr w' = w_stderr w \<and>
    w_cwd w' = w_cwd w \<and> w_forks w' = w_forks w \<and> w_waits w' = w_waits w"
  using assms
proof (induction os tk pos buffsize ptr tokens w rule: split_loop.induct)
  case (1 os pos buffsize ptr tokens w)
  then show ?case
    by (auto split: if_splits)
next
  case (2 os token save pos buffsize ptr tokens w)
  let ?t1 = "tokens[pos := Tok token]"
  let ?next = "strtok save LSH_TOK_DELIM"
  from "2.prems" have pos: "pos < length tokens"
    by (auto split: if_splits)
  have nn: "\<not> \<not> pos < length tokens" using pos by simp
  show ?case
  proof (cases "buffsize \<le> pos + 1")
    case True
    from "2.prems" pos True have ov: "\<not> INT_MAX < buffsize + LSH_TOK_BUFSIZE"
      by (auto simp: Let_def split: if_splits)
    from "2.prems" pos True ov obtain p1 w1 where r: "realloc os ptr w = (Some p1, w1)"
      by (cases "realloc os ptr w") (auto simp: Let_def split: option.splits)
    let ?ts = "?t1 @ replicate (buffsize + LSH_TOK_BUFSIZE - length ?t1) Garbage"
    from "2.prems" pos True ov r
    have rec: "split_loop os ?next (pos + 1) (buffsize + LSH_TOK_BUFSIZE) p1 ?ts w1 =
        Done (ap, cells) w'"
      by (simp add: Let_def)
    from realloc_fields [OF r] "2.prems"(2) have live: "w_live w1 = p1 # live"
      by simp
    from "2.IH"(1) [OF nn refl refl True ov refl r [symmetric] refl rec live]
      realloc_fields [OF r]
    show ?thesis by simp
  next
    case False
    from "2.prems" pos False
    have rec: "split_loop os ?next (pos + 1) buffsize ptr ?t1 w = Done (ap, cells) w'"
      by (simp add: Let_def)
    from "2.IH"(2) [OF nn refl refl False rec "2.prems"(2)]
    show ?thesis by simp
  qed
qed

lemma split_loop_Stopped:
  assumes "split_loop os tk pos buffsize ptr tokens w = Stopped s w'"
    and "pos < length tokens" and "buffsize = length tokens"
    and "pos + length (pending tk) + LSH_TOK_BUFSIZE \<le> INT_MAX"
  shows "s = Exit EXIT_FAILURE \<and>
    w_stderr w' = w_stderr w @ [Text ''lsh: allocation error\<newline>''] \<and>
    w_allocs w < w_allocs w' \<and> \<not> alloc_ok os (w_allocs w' - 1) \<and>
    w_stdout w' = w_stdout w \<and> w_cwd w' = w_cwd w \<and> w_forks w' = w_forks w \<and>
    w_waits w' = w_waits w"
  using assms
proof (induction os tk pos buffsize ptr tokens w rule: split_loop.induct)
  case (1 os pos buffsize ptr tokens w)
  then show ?case by simp
next
  case (2 os token save pos buffsize ptr tokens w)
  let ?t1 = "tokens[pos := Tok token]"
  let ?next = "strtok save LSH_TOK_DELIM"
  note pos = "2.prems"(2)
  have pend: "pending (Some (token, save)) = token # pending ?next"
    by (simp add: pending_strtok)
  with "2.prems"(4)
  have bound: "pos + 1 + length (pending ?next) + LSH_TOK_BUFSIZE \<le> INT_MAX"
    by simp
  have nn: "\<not> \<not> pos < length tokens" using pos by simp
  show ?case
  proof (cases "buffsize \<le> pos + 1")
    case True
    with bound have ov: "\<not> INT_MAX < buffsize + LSH_TOK_BUFSIZE"
      by simp
    obtain r w1 where r: "realloc os ptr w = (r, w1)"
      by (cases "realloc os ptr w") auto
    show ?thesis
    proof (cases r)
      case None
      with "2.prems"(1) pos True ov r
      have "s = Exit EXIT_FAILURE" "w' = fprintf_stderr ''lsh: allocation error\<newline>'' w1"
        by (simp_all add: Let_def)
      with realloc_fields [OF r] None show ?thesis
        by (simp add: fprintf_stderr_def)
    next
      case (Some p1)
      let ?ts = "?t1 @ replicate (buffsize + LSH_TOK_BUFSIZE - length ?t1) Garbage"
      from "2.prems"(1) pos True ov r Some
      have rec: "split_loop os ?next (pos + 1) (buffsize + LSH_TOK_BUFSIZE) p1 ?ts w1 =
          Stopped s w'"
        by (simp add: Let_def)
      have len: "buffsize + LSH_TOK_BUFSIZE = length ?ts"
        using "2.prems"(3) by simp
      have p1: "pos + 1 < length ?ts"
        using pos "2.prems"(3) by (simp add: LSH_TOK_BUFSIZE_def)
      have r': "(r, w1) = realloc os ptr w" using r by simp
      from "2.IH"(1) [OF nn refl refl True ov refl r' Some rec p1 len bound]
        realloc_fields [OF r]
      show ?thesis by simp
    qed
  next
    case False
    have p1: "pos + 1 < length ?t1"
      using False "2.prems"(3) by simp
    have len: "buffsize = length ?t1"
      using "2.prems"(3) by simp
    from "2.prems"(1) pos False
    have rec: "split_loop os ?next (pos + 1) buffsize ptr ?t1 w = Stopped s w'"
      by (simp add: Let_def)
    from "2.IH"(2) [OF nn refl refl False rec p1 len bound]
    show ?thesis by simp
  qed
qed


subsection \<open>\<^verbatim>\<open>lsh_split_line\<close>\<close>

lemma c_argv_tokens: "c_argv (map Tok ts @ Null # rest) = Some ts"
  by (induction ts) simp_all

lemma sentinel_c_argv:
  assumes "n < length cells" "take n cells = map Tok ts" "cells ! n = Null"
  shows "c_argv cells = Some ts"
proof -
  from assms have "cells = map Tok ts @ Null # drop (Suc n) cells"
    using id_take_nth_drop [of n cells] by simp
  then show ?thesis
    using c_argv_tokens [of ts "drop (Suc n) cells"] by simp
qed

lemma lsh_split_line_unfold:
  "lsh_split_line os line w =
     (if alloc_ok os (w_allocs w)
      then split_loop os (strtok line LSH_TOK_DELIM) 0 LSH_TOK_BUFSIZE (w_allocs w)
             (replicate LSH_TOK_BUFSIZE Garbage)
             (w\<lparr>w_live := w_allocs w # w_live w, w_allocs := Suc (w_allocs w)\<rparr>)
      else Stopped (Exit EXIT_FAILURE)
             (w\<lparr>w_stderr := w_stderr w @ [Text ''lsh: allocation error\<newline>''],
                w_allocs := Suc (w_allocs w)\<rparr>))"
  by (simp add: lsh_split_line_def malloc_def fprintf_stderr_def)

lemma line_bound:
  assumes "length line + LSH_TOK_BUFSIZE \<le> INT_MAX"
  shows "0 + length (pending (strtok line LSH_TOK_DELIM)) + LSH_TOK_BUFSIZE \<le> INT_MAX"
proof -
  have "length (nonws_runs (c_str line)) \<le> length line"
    using nonws_runs_length [of "c_str line"] c_str_length [of line] by simp
  with assms show ?thesis
    by (simp add: pending_strtok)
qed

lemma lsh_split_line_Done:
  assumes "lsh_split_line os line w = Done (ap, cells) w'"
  shows "length (nonws_runs (c_str line)) < length cells"
    and "take (length (nonws_runs (c_str line))) cells = map Tok (nonws_runs (c_str line))"
    and "cells ! length (nonws_runs (c_str line)) = Null"
    and "c_argv cells = Some (nonws_runs (c_str line))"
proof -
  from assms have "split_loop os (strtok line LSH_TOK_DELIM) 0 LSH_TOK_BUFSIZE (w_allocs w)
      (replicate LSH_TOK_BUFSIZE Garbage)
      (w\<lparr>w_live := w_allocs w # w_live w, w_allocs := Suc (w_allocs w)\<rparr>) = Done (ap, cells) w'"
    by (simp add: lsh_split_line_unfold split: if_splits)
  from split_loop_Done [OF this]
  show a: "length (nonws_runs (c_str line)) < length cells"
    and b: "take (length (nonws_runs (c_str line))) cells = map Tok (nonws_runs (c_str line))"
    and c: "cells ! length (nonws_runs (c_str line)) = Null"
    by (simp_all add: pending_strtok)
  from sentinel_c_argv [OF a b c]
  show "c_argv cells = Some (nonws_runs (c_str line))" .
qed

lemma lsh_split_line_returns:
  assumes "\<forall>n \<ge> w_allocs w. alloc_ok os n"
    and "length line + LSH_TOK_BUFSIZE \<le> INT_MAX"
  shows "\<exists>ap cells w'. lsh_split_line os line w = Done (ap, cells) w'"
proof -
  let ?w1 = "w\<lparr>w_live := w_allocs w # w_live w, w_allocs := Suc (w_allocs w)\<rparr>"
  have "\<exists>ap cells w'. split_loop os (strtok line LSH_TOK_DELIM) 0 LSH_TOK_BUFSIZE (w_allocs w)
      (replicate LSH_TOK_BUFSIZE Garbage) ?w1 = Done (ap, cells) w'"
  proof (rule split_loop_returns)
    show "\<forall>n \<ge> w_allocs ?w1. alloc_ok os n"
      using assms(1) by simp
    show "0 < length (replicate LSH_TOK_BUFSIZE Garbage)"
      by (simp add: LSH_TOK_BUFSIZE_def)
    show "LSH_TOK_BUFSIZE = length (replicate LSH_TOK_BUFSIZE Garbage)"
      by simp
    show "0 + length (pending (strtok line LSH_TOK_DELIM)) + LSH_TOK_BUFSIZE \<le> INT_MAX"
      using assms(2) by (rule line_bound)
  qed
  with assms(1) show ?thesis
    by (simp add: lsh_split_line_unfold)
qed

lemma lsh_split_line_frame:
  assumes "lsh_split_line os line w = Done (ap, cells) w'"
  shows "w_live w' = ap # w_live w \<and> w_stdout w' = w_stdout w \<and> w_stderr w' = w_stderr w \<and>
    w_cwd w' = w_cwd w \<and> w_forks w' = w_forks w \<and> w_waits w' = w_waits w"
proof -
  let ?w1 = "w\<lparr>w_live := w_allocs w # w_live w, w_allocs := Suc (w_allocs w)\<rparr>"
  from assms have "split_loop os (strtok line LSH_TOK_DELIM) 0 LSH_TOK_BUFSIZE (w_allocs w)
      (replicate LSH_TOK_BUFSIZE Garbage) ?w1 = Done (ap, cells) w'"
    by (simp add: lsh_split_line_unfold split: if_splits)
  from split_loop_frame [OF this, of "w_live w"] show ?thesis
    by simp
qed

lemma lsh_split_line_Stopped:
  assumes "lsh_split_line os line w = Stopped s w'"
    and "length line + LSH_TOK_BUFSIZE \<le> INT_MAX"
  shows "s = Exit EXIT_FAILURE \<and>
    w_stderr w' = w_stderr w @ [Text ''lsh: allocation error\<newline>''] \<and>
    w_allocs w < w_allocs w' \<and> \<not> alloc_ok os (w_allocs w' - 1) \<and>
    w_stdout w' = w_stdout w \<and> w_cwd w' = w_cwd w \<and> w_forks w' = w_forks w \<and>
    w_waits w' = w_waits w"
proof (cases "alloc_ok os (w_allocs w)")
  case False
  with assms(1) show ?thesis
    by (auto simp: lsh_split_line_unfold)
next
  case True
  let ?w1 = "w\<lparr>w_live := w_allocs w # w_live w, w_allocs := Suc (w_allocs w)\<rparr>"
  from assms(1) True
  have "split_loop os (strtok line LSH_TOK_DELIM) 0 LSH_TOK_BUFSIZE (w_allocs w)
      (replicate LSH_TOK_BUFSIZE Garbage) ?w1 = Stopped s w'"
    by (simp add: lsh_split_line_unfold)
  from split_loop_Stopped [OF this _ _ line_bound [OF assms(2)]]
  show ?thesis
    by (simp add: LSH_TOK_BUFSIZE_def)
qed

subsection \<open>The claims about the tokenizer\<close>

lemma runs_scan_tokens:
  "t \<in> set (runs_scan p s) \<Longrightarrow> t \<noteq> [] \<and> (\<forall>c \<in> set t. \<not> whitespace c)"
proof (induction s arbitrary: p)
  case Nil
  then show ?case by simp
next
  case (Cons c cs)
  show ?case
  proof (cases "whitespace c")
    case True
    with Cons.prems Cons.IH [of True] show ?thesis by simp
  next
    case False
    with Cons.prems have "t = takeWhile (\<lambda>c. \<not> whitespace c) (c # cs) \<or> t \<in> set (runs_scan False cs)"
      by (auto split: if_splits)
    then show ?thesis
    proof
      assume t: "t = takeWhile (\<lambda>c. \<not> whitespace c) (c # cs)"
      with False have "t \<noteq> []" by simp
      moreover have "\<forall>c \<in> set t. \<not> whitespace c"
        unfolding t by (auto dest: set_takeWhileD)
      ultimately show ?thesis by simp
    next
      assume "t \<in> set (runs_scan False cs)"
      then show ?thesis by (rule Cons.IH)
    qed
  qed
qed

lemma c_str_id: "NUL \<notin> set s \<Longrightarrow> c_str s = s"
  by (auto simp: c_str_def takeWhile_eq_all_conv)

text \<open>
  C2, as stated, fails on a line that holds a NUL byte: \<^verbatim>\<open>strtok\<close> ends the string
  at the first NUL. The line \<open>line_nul\<close> has two maximal runs of non-whitespace
  characters, the first of which holds the NUL, but \<^verbatim>\<open>lsh_split_line\<close> returns the
  single token \<^verbatim>\<open>ls\<close>.
\<close>

theorem nul_line_one_token:
  "lsh_split_line os_sample line_nul w_start =
     Done (0, [Tok ''ls'', Null] @ replicate 62 Garbage) (w_start\<lparr>w_live := [0], w_allocs := 1\<rparr>) \<and>
   c_argv ([Tok ''ls'', Null] @ replicate 62 Garbage) = Some [''ls''] \<and>
   nonws_runs line_nul = [''ls'' @ [CHR 0x00] @ ''-l'', ''/tmp''] \<and>
   length (run_starts line_nul) = 2"
proof -
  have 1: "lsh_split_line os_sample line_nul w_start =
     Done (0, [Tok ''ls'', Null] @ replicate 62 Garbage) (w_start\<lparr>w_live := [0], w_allocs := 1\<rparr>)"
    by (simp add: lsh_split_line_unfold line_nul_def os_sample_def w_start_def
      strtok_def LSH_TOK_DELIM_def NUL_def at_end_def LSH_TOK_BUFSIZE_def INT_MAX_def
      eval_nat_numeral)
  have 2: "c_argv ([Tok ''ls'', Null] @ replicate 62 Garbage) = Some [''ls'']"
    by simp
  have 3: "nonws_runs line_nul = [''ls'' @ [CHR 0x00] @ ''-l'', ''/tmp'']"
    by (simp add: nonws_runs_scan line_nul_def whitespace_def)
  have "length (nonws_runs line_nul) = length (run_starts line_nul)"
    by (simp add: nonws_runs_def)
  with 3 have 4: "length (run_starts line_nul) = 2"
    by simp
  from 1 2 3 4 show ?thesis by (intro conjI)
qed

text \<open>
  C2, amended. For every input line, \<^verbatim>\<open>lsh_split_line\<close> tokenizes \<open>c_str line\<close>,
  the bytes of the line before its first NUL, which is the whole line when it holds
  no NUL. Whenever it returns, the argument vector it returns holds exactly the
  maximal runs of non-whitespace characters of that string, in order, where
  whitespace is space, tab, carriage return, newline and bell; so the number of
  tokens is the number of positions at which such a run starts, no token is empty
  and no token holds a whitespace character. It does return when no allocation
  request fails and the line is short enough for the \<^verbatim>\<open>int\<close> counters (less than
  2 GiB).
\<close>

theorem lsh_split_line_tokens:
  "(lsh_split_line os line w = Done (ap, cells) w' \<longrightarrow>
      c_argv cells = Some (nonws_runs (c_str line)) \<and>
      length (nonws_runs (c_str line)) = length (run_starts (c_str line)) \<and>
      (\<forall>t \<in> set (nonws_runs (c_str line)). t \<noteq> [] \<and> (\<forall>c \<in> set t. \<not> whitespace c)))
   \<and> ((\<forall>n \<ge> w_allocs w. alloc_ok os n) \<and> length line + LSH_TOK_BUFSIZE \<le> INT_MAX \<longrightarrow>
        (\<exists>ap cells w'. lsh_split_line os line w = Done (ap, cells) w'))
   \<and> (NUL \<notin> set line \<longrightarrow> c_str line = line)"
proof (intro conjI impI)
  assume "lsh_split_line os line w = Done (ap, cells) w'"
  then show "c_argv cells = Some (nonws_runs (c_str line))"
    by (rule lsh_split_line_Done)
next
  show "length (nonws_runs (c_str line)) = length (run_starts (c_str line))"
    by (simp add: nonws_runs_def)
next
  show "\<forall>t \<in> set (nonws_runs (c_str line)). t \<noteq> [] \<and> (\<forall>c \<in> set t. \<not> whitespace c)"
    using runs_scan_tokens [of _ True "c_str line"] by (simp add: nonws_runs_scan)
next
  assume "(\<forall>n \<ge> w_allocs w. alloc_ok os n) \<and> length line + LSH_TOK_BUFSIZE \<le> INT_MAX"
  then show "\<exists>ap cells w'. lsh_split_line os line w = Done (ap, cells) w'"
    using lsh_split_line_returns by blast
next
  assume "NUL \<notin> set line"
  then show "c_str line = line" by (rule c_str_id)
qed

lemma sample_runs: "nonws_runs (c_str ''ls  -l /tmp\<newline>'') = [''ls'', ''-l'', ''/tmp'']"
  by (simp add: nonws_runs_scan c_str_def NUL_def whitespace_def)

theorem lsh_split_line_tokens_witness:
  "\<exists>ap cells w'. lsh_split_line os_sample ''ls  -l /tmp\<newline>'' w_start = Done (ap, cells) w' \<and>
     c_argv cells = Some [''ls'', ''-l'', ''/tmp''] \<and>
     length [''ls'', ''-l'', ''/tmp''] = length (run_starts ''ls  -l /tmp\<newline>'')"
proof -
  let ?line = "''ls  -l /tmp\<newline>''"
  have a: "\<forall>n \<ge> w_allocs w_start. alloc_ok os_sample n"
    by (simp add: os_sample_def)
  have b: "length ?line + LSH_TOK_BUFSIZE \<le> INT_MAX"
    by (simp add: LSH_TOK_BUFSIZE_def INT_MAX_def)
  have c: "NUL \<notin> set ?line"
    by (simp add: NUL_def)
  from lsh_split_line_tokens [of os_sample ?line w_start] a b
  obtain ap cells w' where d: "lsh_split_line os_sample ?line w_start = Done (ap, cells) w'"
    by blast
  from lsh_split_line_tokens [of os_sample ?line w_start ap cells w'] d c
  have r: "c_argv cells = Some (nonws_runs (c_str ?line))"
    and l: "length (nonws_runs (c_str ?line)) = length (run_starts (c_str ?line))"
    and e: "c_str ?line = ?line"
    by blast+
  from r have r': "c_argv cells = Some [''ls'', ''-l'', ''/tmp'']"
    by (simp only: sample_runs)
  from l have "length [''ls'', ''-l'', ''/tmp''] = length (run_starts (c_str ?line))"
    by (simp only: sample_runs)
  then have "length [''ls'', ''-l'', ''/tmp''] = length (run_starts ?line)"
    by (simp only: e)
  with d r' show ?thesis
    by blast
qed

lemma blank_strtok:
  assumes "\<forall>c \<in> set line. whitespace c"
  shows "strtok line LSH_TOK_DELIM = None"
proof -
  from assms have d: "dropWhile whitespace line = []"
    by simp
  show ?thesis
    unfolding strtok_whitespace d by (simp add: at_end_def)
qed

text \<open>
  C7. A line that consists of whitespace-class characters only, the empty line
  included, tokenizes to the empty argument vector (provided the one allocation of
  the array succeeds), and \<^verbatim>\<open>lsh_execute\<close> on the empty vector returns CONTINUE and
  leaves the state of the process as it was.
\<close>

theorem blank_line_no_tokens:
  "((\<forall>c \<in> set line. whitespace c) \<and> alloc_ok os (w_allocs w) \<longrightarrow>
      (\<exists>ap cells w'. lsh_split_line os line w = Done (ap, cells) w' \<and> c_argv cells = Some []))
   \<and> lsh_execute os [] w = Done CONTINUE w"
proof (intro conjI impI)
  assume a: "(\<forall>c \<in> set line. whitespace c) \<and> alloc_ok os (w_allocs w)"
  then have ws: "\<forall>c \<in> set line. whitespace c" by simp
  then have "NUL \<notin> set line"
    using whitespace_not_NUL by blast
  then have "nonws_runs (c_str line) = []"
    using nonws_runs_nil [OF ws] by (simp add: c_str_id)
  moreover from a blank_strtok [OF ws]
  obtain ap cells w' where d: "lsh_split_line os line w = Done (ap, cells) w'"
    by (simp add: lsh_split_line_unfold LSH_TOK_BUFSIZE_def)
  ultimately have "c_argv cells = Some []"
    using lsh_split_line_Done(4) [OF d] by simp
  with d show "\<exists>ap cells w'. lsh_split_line os line w = Done (ap, cells) w' \<and> c_argv cells = Some []"
    by blast
next
  show "lsh_execute os [] w = Done CONTINUE w"
    by (simp add: CONTINUE_def)
qed

theorem blank_line_no_tokens_witness:
  "(\<exists>ap cells w'. lsh_split_line os_sample [CHR '' '', CHR 0x09, CHR 0x0D, CHR 0x07, CHR 0x0A] w_start =
        Done (ap, cells) w' \<and> c_argv cells = Some []) \<and>
   (\<exists>ap cells w'. lsh_split_line os_sample [] w_start = Done (ap, cells) w' \<and> c_argv cells = Some []) \<and>
   lsh_execute os_sample [] w_start = Done CONTINUE w_start"
proof -
  have a: "(\<forall>c \<in> set [CHR '' '', CHR 0x09, CHR 0x0D, CHR 0x07, CHR 0x0A]. whitespace c) \<and>
      alloc_ok os_sample (w_allocs w_start)"
    by (simp add: whitespace_def os_sample_def)
  have b: "(\<forall>c \<in> set []. whitespace c) \<and> alloc_ok os_sample (w_allocs w_start)"
    by (simp add: os_sample_def)
  from blank_line_no_tokens [of "[CHR '' '', CHR 0x09, CHR 0x0D, CHR 0x07, CHR 0x0A]" os_sample w_start] a
    blank_line_no_tokens [of "[]" os_sample w_start] b
  show ?thesis by blast
qed

text \<open>
  C10. The array that \<^verbatim>\<open>lsh_split_line\<close> returns is properly terminated: with \<open>n\<close>
  the number of tokens, the cells \<open>0, ..., n - 1\<close> hold the tokens, cell \<open>n\<close> lies
  inside the array and holds the null pointer, so that a consumer reading up to the
  first null pointer (\<open>c_argv\<close>) gets the tokens and reads no cell that was not
  written. This holds for every number of tokens: zero, fewer than 64, exactly 64 and
  more, the array having been enlarged in time. The function returns when no
  allocation request fails and the line is short enough for the \<^verbatim>\<open>int\<close> counters.
\<close>

theorem lsh_split_line_terminated:
  "(lsh_split_line os line w = Done (ap, cells) w' \<longrightarrow>
      (\<exists>toks. c_argv cells = Some toks \<and> toks = nonws_runs (c_str line) \<and>
         length toks < length cells \<and> cells ! length toks = Null \<and>
         (\<forall>i < length toks. cells ! i = Tok (toks ! i))))
   \<and> ((\<forall>n \<ge> w_allocs w. alloc_ok os n) \<and> length line + LSH_TOK_BUFSIZE \<le> INT_MAX \<longrightarrow>
        (\<exists>ap cells w'. lsh_split_line os line w = Done (ap, cells) w'))"
proof (intro conjI impI)
  assume d: "lsh_split_line os line w = Done (ap, cells) w'"
  let ?toks = "nonws_runs (c_str line)"
  note r = lsh_split_line_Done [OF d]
  have "cells ! i = Tok (?toks ! i)" if "i < length ?toks" for i
  proof -
    from that have "cells ! i = take (length ?toks) cells ! i"
      by simp
    also have "\<dots> = Tok (?toks ! i)"
      using that by (simp only: r(2)) simp
    finally show ?thesis .
  qed
  with r show "\<exists>toks. c_argv cells = Some toks \<and> toks = ?toks \<and>
      length toks < length cells \<and> cells ! length toks = Null \<and>
      (\<forall>i < length toks. cells ! i = Tok (toks ! i))"
    by blast
next
  assume "(\<forall>n \<ge> w_allocs w. alloc_ok os n) \<and> length line + LSH_TOK_BUFSIZE \<le> INT_MAX"
  then show "\<exists>ap cells w'. lsh_split_line os line w = Done (ap, cells) w'"
    using lsh_split_line_returns by blast
qed

lemma runs_scan_line: "runs_scan True (concat (replicate n ''ab '')) = replicate n ''ab''"
  by (induction n) (simp_all add: whitespace_def)

lemma line64_runs: "nonws_runs (c_str line64) = replicate 64 ''ab''"
proof -
  have "NUL \<notin> set line64"
    by (simp add: line64_def NUL_def)
  then show ?thesis
    by (simp add: c_str_id nonws_runs_scan line64_def runs_scan_line)
qed

theorem lsh_split_line_terminated_witness:
  "(\<exists>ap cells w'. lsh_split_line os_sample line64 w_start = Done (ap, cells) w' \<and>
      c_argv cells = Some (replicate 64 ''ab'') \<and> 64 < length cells \<and> cells ! 64 = Null \<and>
      cells ! 63 = Tok ''ab'') \<and>
   (\<exists>ap cells w'. lsh_split_line os_sample [] w_start = Done (ap, cells) w' \<and>
      c_argv cells = Some [] \<and> 0 < length cells \<and> cells ! 0 = Null)"
proof -
  have a: "\<forall>n \<ge> w_allocs w_start. alloc_ok os_sample n"
    by (simp add: os_sample_def)
  have b: "length line64 + LSH_TOK_BUFSIZE \<le> INT_MAX"
    by (simp add: line64_def length_concat sum_list_replicate LSH_TOK_BUFSIZE_def INT_MAX_def)
  have c: "length ([] :: string) + LSH_TOK_BUFSIZE \<le> INT_MAX"
    by (simp add: LSH_TOK_BUFSIZE_def INT_MAX_def)
  have e: "nonws_runs (c_str []) = []"
    by (simp add: nonws_runs_scan c_str_def)
  from lsh_split_line_terminated [of os_sample line64 w_start] a b
  obtain ap cells w' where d: "lsh_split_line os_sample line64 w_start = Done (ap, cells) w'"
    by blast
  from lsh_split_line_terminated [of os_sample line64 w_start ap cells w'] d
  have 1: "c_argv cells = Some (replicate 64 ''ab'') \<and> 64 < length cells \<and> cells ! 64 = Null \<and>
      cells ! 63 = Tok ''ab''"
    by (auto simp: line64_runs)
  from lsh_split_line_terminated [of os_sample "[]" w_start] a c
  obtain ap0 cells0 w0 where d0: "lsh_split_line os_sample [] w_start = Done (ap0, cells0) w0"
    by blast
  from lsh_split_line_terminated [of os_sample "[]" w_start ap0 cells0 w0] d0
  have 2: "c_argv cells0 = Some [] \<and> 0 < length cells0 \<and> cells0 ! 0 = Null"
    by (auto simp: e)
  from d 1 d0 2 show ?thesis by blast
qed

section \<open>Dispatch and the loop\<close>

subsection \<open>What the handlers and the launcher leave unchanged\<close>

lemma wait_loop_frame:
  "wait_loop st evs w = Done st' w' \<Longrightarrow>
     w_live w' = w_live w \<and> w_allocs w' = w_allocs w \<and> w_stderr w' = w_stderr w \<and>
     w_stdout w' = w_stdout w \<and> w_cwd w' = w_cwd w"
  using wait_loop_waits [of st evs w st' w'] by (cases w, cases w') auto

lemma wait_loop_Stopped: "wait_loop st evs w = Stopped s w' \<Longrightarrow> s = Hang"
  by (induction evs arbitrary: st w) (auto simp: Let_def split: if_splits)

lemma lsh_launch_Done:
  "lsh_launch os args w = Done st w' \<Longrightarrow>
     st = 1 \<and> w_live w' = w_live w \<and> w_allocs w' = w_allocs w"
  by (auto simp: lsh_launch_def Let_def perror_def
      split: fork_result.splits if_splits outcome.splits dest: wait_loop_frame)

lemma lsh_launch_Stopped:
  "lsh_launch os args w = Stopped (Exit c) w' \<Longrightarrow> c = EXIT_FAILURE"
  by (auto simp: lsh_launch_def Let_def
      split: fork_result.splits if_splits outcome.splits dest: wait_loop_Stopped)

lemma lsh_cd_Done:
  "lsh_cd os args w = Done st w' \<Longrightarrow>
     st = 1 \<and> w_live w' = w_live w \<and> w_allocs w' = w_allocs w"
  by (auto simp: lsh_cd_def fprintf_stderr_def perror_def split: list.splits option.splits)

lemma lsh_cd_Stopped: "lsh_cd os args w = Stopped (Exit c) w' \<Longrightarrow> False"
  by (auto simp: lsh_cd_def split: list.splits option.splits)

lemma lsh_cd_returns: "\<exists>w'. lsh_cd os (a0 # as) w = Done 1 w'"
  by (auto simp: lsh_cd_def split: list.splits option.splits)

lemma lsh_help_Done: "lsh_help os args w = Done 1 (printf help_text w)"
  by (simp add: lsh_help_def help_loop_unfold printf_def help_text_def)

lemma lsh_execute_unfold:
  "lsh_execute os (a0 # as) w =
     (if a0 = ''cd'' then lsh_cd os (a0 # as) w
      else if a0 = ''help'' then lsh_help os (a0 # as) w
      else if a0 = ''exit'' then lsh_exit os (a0 # as) w
      else lsh_launch os (a0 # as) w)"
  by (simp add: execute_loop_unfold)

lemma lsh_execute_Done:
  assumes "lsh_execute os args w = Done st w'"
  shows "w_live w' = w_live w \<and> w_allocs w' = w_allocs w \<and>
    (st = 1 \<or> st = 0 \<and> (\<exists>as. args = ''exit'' # as))"
proof (cases args)
  case Nil
  with assms show ?thesis by auto
next
  case (Cons a0 as)
  with assms show ?thesis
    by (auto simp: execute_loop_unfold lsh_help_Done printf_def lsh_exit_def
        split: if_splits dest: lsh_cd_Done lsh_launch_Done)
qed

lemma lsh_execute_Stopped:
  assumes "lsh_execute os args w = Stopped (Exit c) w'"
  shows "c = EXIT_FAILURE"
proof (cases args)
  case Nil
  with assms show ?thesis by simp
next
  case (Cons a0 as)
  with assms show ?thesis
    by (auto simp: execute_loop_unfold lsh_help_Done lsh_exit_def
        split: if_splits dest: lsh_cd_Stopped lsh_launch_Stopped)
qed

lemma split_loop_Exit:
  "split_loop os tk pos buffsize ptr tokens w = Stopped (Exit c) w' \<Longrightarrow> c = EXIT_FAILURE"
proof (induction os tk pos buffsize ptr tokens w rule: split_loop.induct)
  case (1 os pos buffsize ptr tokens w)
  then show ?case by (auto split: if_splits)
next
  case (2 os token save pos buffsize ptr tokens w)
  from "2.prems" have pos: "pos < length tokens"
    by (auto split: if_splits)
  have nn: "\<not> \<not> pos < length tokens" using pos by simp
  show ?case
  proof (cases "buffsize \<le> pos + 1")
    case True
    from "2.prems" pos True have ov: "\<not> INT_MAX < buffsize + LSH_TOK_BUFSIZE"
      by (auto simp: Let_def split: if_splits)
    obtain r w1 where r: "realloc os ptr w = (r, w1)"
      by (cases "realloc os ptr w") auto
    show ?thesis
    proof (cases r)
      case None
      with "2.prems" pos True ov r show ?thesis
        by (simp add: Let_def)
    next
      case (Some p1)
      with "2.prems" pos True ov r
      have rec: "split_loop os (strtok save LSH_TOK_DELIM) (pos + 1) (buffsize + LSH_TOK_BUFSIZE) p1
          (tokens[pos := Tok token] @
            replicate (buffsize + LSH_TOK_BUFSIZE - length (tokens[pos := Tok token])) Garbage) w1 =
          Stopped (Exit c) w'"
        by (simp add: Let_def)
      have r': "(r, w1) = realloc os ptr w" using r by simp
      from "2.IH"(1) [OF nn refl refl True ov refl r' Some rec] show ?thesis .
    qed
  next
    case False
    with "2.prems" pos
    have rec: "split_loop os (strtok save LSH_TOK_DELIM) (pos + 1) buffsize ptr
        (tokens[pos := Tok token]) w = Stopped (Exit c) w'"
      by (simp add: Let_def)
    from "2.IH"(2) [OF nn refl refl False rec] show ?thesis .
  qed
qed

lemma lsh_split_line_Exit:
  "lsh_split_line os line w = Stopped (Exit c) w' \<Longrightarrow> c = EXIT_FAILURE"
  by (auto simp: lsh_split_line_unfold split: if_splits dest: split_loop_Exit)

lemma first_token_args:
  assumes "lsh_split_line os line w = Done (ap, cells) w'"
  shows "c_argv cells = Some (a0 # as) \<longleftrightarrow>
    first_token line = Some a0 \<and> nonws_runs (c_str line) = a0 # as"
proof -
  have "c_argv cells = Some (pending (strtok line LSH_TOK_DELIM))"
    using lsh_split_line_Done(4) [OF assms] by (simp add: pending_strtok)
  moreover have "nonws_runs (c_str line) = pending (strtok line LSH_TOK_DELIM)"
    by (simp add: pending_strtok)
  ultimately show ?thesis
    by (cases "strtok line LSH_TOK_DELIM") (auto simp: first_token_def)
qed

subsection \<open>One iteration\<close>

lemma loop_body_GotLine:
  "loop_body os (GotLine line) w =
     (case lsh_split_line os line (getline_buffer (printf ''> '' w)) of
        Stopped s w2 \<Rightarrow> Stopped s w2
      | Done (ap, cells) w2 \<Rightarrow>
          (case c_argv cells of
             None \<Rightarrow> Stopped Undefined w2
           | Some args \<Rightarrow>
               (case lsh_execute os args w2 of
                  Stopped s w3 \<Rightarrow> Stopped s w3
                | Done status w3 \<Rightarrow> Done status (free (w_allocs w) (free ap w3)))))"
  by (simp add: loop_body_def printf_def)

lemma loop_body_Done:
  assumes "loop_body os ev w = Done st w'"
  shows "\<exists>line. ev = GotLine line \<and>
    (st = 1 \<or> st = 0 \<and> first_token line = Some ''exit'') \<and> w_live w' = w_live w"
proof (cases ev)
  case (GotLine line)
  let ?w1 = "getline_buffer (printf ''> '' w)"
  from assms GotLine obtain ap cells w2 where
    sp: "lsh_split_line os line ?w1 = Done (ap, cells) w2"
    by (cases "lsh_split_line os line ?w1") (auto simp: loop_body_GotLine)
  from assms GotLine sp obtain args where av: "c_argv cells = Some args"
    by (cases "c_argv cells") (auto simp: loop_body_GotLine)
  from assms GotLine sp av obtain w3 where
    ex: "lsh_execute os args w2 = Done st w3" and w': "w' = free (w_allocs w) (free ap w3)"
    by (cases "lsh_execute os args w2") (auto simp: loop_body_GotLine)
  from lsh_split_line_frame [OF sp]
  have "w_live w2 = ap # w_allocs w # w_live w"
    by (simp add: getline_buffer_def printf_def)
  with lsh_execute_Done [OF ex] w' have live: "w_live w' = w_live w"
    by (simp add: free_def)
  from lsh_execute_Done [OF ex] av first_token_args [OF sp, of "''exit''"]
  have "st = 1 \<or> st = 0 \<and> first_token line = Some ''exit''"
    by auto
  with live GotLine show ?thesis by simp
next
  case (EndOfInput b)
  with assms show ?thesis by (simp add: loop_body_def)
next
  case (ReadFailure b)
  with assms show ?thesis by (simp add: loop_body_def)
qed

lemma loop_body_Exit:
  assumes "loop_body os ev w = Stopped (Exit c) w'"
  shows "c = EXIT_SUCCESS \<and> (\<exists>b. ev = EndOfInput b) \<or> c = EXIT_FAILURE"
proof (cases ev)
  case (GotLine line)
  with assms show ?thesis
    by (auto simp: loop_body_GotLine split: outcome.splits option.splits
        dest: lsh_split_line_Exit lsh_execute_Stopped)
next
  case (EndOfInput b)
  with assms show ?thesis by (simp add: loop_body_def)
next
  case (ReadFailure b)
  with assms show ?thesis by (simp add: loop_body_def)
qed

lemma lsh_execute_defined: "lsh_execute os args w = Stopped s w' \<Longrightarrow> s \<noteq> Undefined"
proof (cases args)
  case Nil
  then show "lsh_execute os args w = Stopped s w' \<Longrightarrow> s \<noteq> Undefined" by simp
next
  case (Cons a0 as)
  then show "lsh_execute os args w = Stopped s w' \<Longrightarrow> s \<noteq> Undefined"
    by (auto simp: execute_loop_unfold lsh_help_Done lsh_exit_def lsh_cd_def lsh_launch_def Let_def
        split: if_splits list.splits option.splits fork_result.splits outcome.splits
        dest: wait_loop_Stopped)
qed

lemma loop_body_defined:
  assumes "\<forall>line. ev = GotLine line \<longrightarrow> length line + LSH_TOK_BUFSIZE \<le> INT_MAX"
  shows "loop_body os ev w \<noteq> Stopped Undefined w'"
proof (cases ev)
  case (GotLine line)
  let ?w1 = "getline_buffer (printf ''> '' w)"
  from assms GotLine have b: "length line + LSH_TOK_BUFSIZE \<le> INT_MAX" by simp
  show ?thesis
  proof (cases "lsh_split_line os line ?w1")
    case (Stopped s w2)
    from lsh_split_line_Stopped [OF this b] Stopped GotLine show ?thesis
      by (simp add: loop_body_GotLine)
  next
    case (Done r w2)
    obtain ap cells where r: "r = (ap, cells)" by (cases r)
    from lsh_split_line_Done(4) [OF Done [unfolded r]] Done r GotLine show ?thesis
      by (auto simp: loop_body_GotLine split: outcome.splits dest: lsh_execute_defined)
  qed
next
  case (EndOfInput b)
  then show ?thesis by (simp add: loop_body_def)
next
  case (ReadFailure b)
  then show ?thesis by (simp add: loop_body_def)
qed

subsection \<open>The loop and the program\<close>

lemma run_prefix_loop:
  "run_prefix os pre w = Some w1 \<Longrightarrow> lsh_loop os (pre @ rest) w = lsh_loop os rest w1"
  by (induction pre arbitrary: w) (auto split: outcome.splits if_splits)

lemma run_prefix_live: "run_prefix os pre w = Some w1 \<Longrightarrow> w_live w1 = w_live w"
proof (induction pre arbitrary: w)
  case Nil
  then show ?case by simp
next
  case (Cons ev pre)
  then obtain st w2 where b: "loop_body os ev w = Done st w2" and r: "run_prefix os pre w2 = Some w1"
    by (auto split: outcome.splits if_splits)
  from loop_body_Done [OF b] Cons.IH [OF r] show ?case by auto
qed

lemma lsh_loop_Done:
  "lsh_loop os stdin w = Done u w' \<Longrightarrow>
     w_live w' = w_live w \<and> (\<exists>line. GotLine line \<in> set stdin \<and> first_token line = Some ''exit'')"
proof (induction stdin arbitrary: w)
  case Nil
  then show ?case by simp
next
  case (Cons ev evs)
  from Cons.prems obtain st w1 where b: "loop_body os ev w = Done st w1"
    by (cases "loop_body os ev w") auto
  note d = loop_body_Done [OF b]
  show ?case
  proof (cases "st = 0")
    case True
    with Cons.prems b have "w' = w1" by simp
    with d True show ?thesis by auto
  next
    case False
    with Cons.prems b have "lsh_loop os evs w1 = Done u w'" by simp
    from Cons.IH [OF this] d show ?thesis by auto
  qed
qed

lemma lsh_loop_Exit:
  "lsh_loop os stdin w = Stopped (Exit c) w' \<Longrightarrow>
     c = EXIT_SUCCESS \<and> (\<exists>b. EndOfInput b \<in> set stdin) \<or> c = EXIT_FAILURE"
proof (induction stdin arbitrary: w)
  case Nil
  then show ?case by simp
next
  case (Cons ev evs)
  show ?case
  proof (cases "loop_body os ev w")
    case (Done st w1)
    with Cons.prems have "lsh_loop os evs w1 = Stopped (Exit c) w'"
      by (simp split: if_splits)
    from Cons.IH [OF this] show ?thesis by auto
  next
    case (Stopped s w1)
    with Cons.prems have "loop_body os ev w = Stopped (Exit c) w'" by simp
    from loop_body_Exit [OF this] show ?thesis by auto
  qed
qed

lemma lsh_loop_defined:
  assumes "\<forall>line. GotLine line \<in> set stdin \<longrightarrow> length line + LSH_TOK_BUFSIZE \<le> INT_MAX"
  shows "lsh_loop os stdin w \<noteq> Stopped Undefined w'"
  using assms
proof (induction stdin arbitrary: w)
  case Nil
  then show ?case by simp
next
  case (Cons ev evs)
  from Cons.prems have 1: "\<forall>line. ev = GotLine line \<longrightarrow> length line + LSH_TOK_BUFSIZE \<le> INT_MAX"
    and 2: "\<forall>line. GotLine line \<in> set evs \<longrightarrow> length line + LSH_TOK_BUFSIZE \<le> INT_MAX"
    by auto
  from loop_body_defined [OF 1] Cons.IH [OF 2] show ?case
    by (auto split: outcome.splits)
qed

lemma main_prefix:
  "run_prefix os pre w = Some w1 \<Longrightarrow> main os (pre @ rest) w = main os rest w1"
  by (simp add: main_def run_prefix_loop)

lemma main_step:
  "main os (ev # rest) w =
     (case loop_body os ev w of
        Stopped s w1 \<Rightarrow> (s, w1)
      | Done status w1 \<Rightarrow> if status \<noteq> 0 then main os rest w1 else (Exit EXIT_SUCCESS, w1))"
  by (simp add: main_def split: outcome.splits)

lemma exit_line:
  assumes "first_token line = Some ''exit''"
    and "\<forall>n \<ge> w_allocs w. alloc_ok os n"
    and "length line + LSH_TOK_BUFSIZE \<le> INT_MAX"
  shows "\<exists>w'. loop_body os (GotLine line) w = Done 0 w'"
proof -
  let ?w1 = "getline_buffer (printf ''> '' w)"
  have "\<forall>n \<ge> w_allocs ?w1. alloc_ok os n"
    using assms(2) by (simp add: getline_buffer_def printf_def)
  from lsh_split_line_returns [OF this assms(3)]
  obtain ap cells w2 where sp: "lsh_split_line os line ?w1 = Done (ap, cells) w2"
    by blast
  from assms(1) obtain save where "strtok line LSH_TOK_DELIM = Some (''exit'', save)"
    by (auto simp: first_token_def)
  then have "pending (strtok line LSH_TOK_DELIM) = ''exit'' # nonws_runs (c_str save)"
    by simp
  then have "nonws_runs (c_str line) = ''exit'' # nonws_runs (c_str save)"
    by (simp add: pending_strtok)
  with first_token_args [OF sp, of "''exit''" "nonws_runs (c_str save)"] assms(1)
  have "c_argv cells = Some (''exit'' # nonws_runs (c_str save))"
    by simp
  with sp show ?thesis
    by (simp add: loop_body_GotLine execute_loop_unfold lsh_exit_def)
qed

subsection \<open>What is still allocated when the process stops inside an iteration\<close>

lemma split_loop_Stopped_live:
  assumes "split_loop os tk pos buffsize ptr tokens w = Stopped s w'"
    and "w_live w = ptr # live"
  shows "\<exists>q. w_live w' = q # live"
  using assms
proof (induction os tk pos buffsize ptr tokens w rule: split_loop.induct)
  case (1 os pos buffsize ptr tokens w)
  then show ?case by (auto split: if_splits)
next
  case (2 os token save pos buffsize ptr tokens w)
  let ?t1 = "tokens[pos := Tok token]"
  let ?next = "strtok save LSH_TOK_DELIM"
  show ?case
  proof (cases "pos < length tokens")
    case False
    with "2.prems" show ?thesis by auto
  next
    case pos: True
    then have nn: "\<not> \<not> pos < length tokens" by simp
    show ?thesis
    proof (cases "buffsize \<le> pos + 1")
      case True
      show ?thesis
      proof (cases "INT_MAX < buffsize + LSH_TOK_BUFSIZE")
        case ov: True
        with "2.prems" pos True show ?thesis by (auto simp: Let_def)
      next
        case ov: False
        obtain r w1 where r: "realloc os ptr w = (r, w1)"
          by (cases "realloc os ptr w") auto
        show ?thesis
        proof (cases r)
          case None
          with "2.prems"(1) pos True ov r
          have "w' = fprintf_stderr ''lsh: allocation error\<newline>'' w1"
            by (simp add: Let_def)
          with realloc_fields [OF r] None "2.prems"(2) show ?thesis
            by (simp add: fprintf_stderr_def)
        next
          case (Some p1)
          let ?ts = "?t1 @ replicate (buffsize + LSH_TOK_BUFSIZE - length ?t1) Garbage"
          from "2.prems"(1) pos True ov r Some
          have rec: "split_loop os ?next (pos + 1) (buffsize + LSH_TOK_BUFSIZE) p1 ?ts w1 =
              Stopped s w'"
            by (simp add: Let_def)
          from realloc_fields [OF r] Some "2.prems"(2) have live: "w_live w1 = p1 # live"
            by simp
          have r': "(r, w1) = realloc os ptr w" using r by simp
          from "2.IH"(1) [OF nn refl refl True ov refl r' Some rec live]
          show ?thesis .
        qed
      qed
    next
      case False
      from "2.prems"(1) pos False
      have rec: "split_loop os ?next (pos + 1) buffsize ptr ?t1 w = Stopped s w'"
        by (simp add: Let_def)
      from "2.IH"(2) [OF nn refl refl False rec "2.prems"(2)]
      show ?thesis .
    qed
  qed
qed

lemma lsh_split_line_Stopped_live:
  assumes "lsh_split_line os line w = Stopped s w'"
  shows "set (w_live w) \<subseteq> set (w_live w')"
proof (cases "alloc_ok os (w_allocs w)")
  case False
  with assms show ?thesis
    by (auto simp: lsh_split_line_unfold)
next
  case True
  let ?w1 = "w\<lparr>w_live := w_allocs w # w_live w, w_allocs := Suc (w_allocs w)\<rparr>"
  from assms True
  have "split_loop os (strtok line LSH_TOK_DELIM) 0 LSH_TOK_BUFSIZE (w_allocs w)
      (replicate LSH_TOK_BUFSIZE Garbage) ?w1 = Stopped s w'"
    by (simp add: lsh_split_line_unfold)
  from split_loop_Stopped_live [OF this, of "w_live w"] show ?thesis
    by auto
qed

lemma wait_loop_Stopped_live: "wait_loop st evs w = Stopped s w' \<Longrightarrow> w_live w' = w_live w"
  by (induction evs arbitrary: st w) (auto simp: Let_def split: if_splits)

lemma lsh_execute_Stopped_live:
  assumes "lsh_execute os args w = Stopped s w'"
  shows "w_live w' = w_live w"
proof (cases args)
  case Nil
  with assms show ?thesis by simp
next
  case (Cons a0 as)
  with assms show ?thesis
    by (auto simp: execute_loop_unfold lsh_help_Done lsh_exit_def lsh_cd_def lsh_launch_def
          Let_def perror_def
        split: if_splits list.splits option.splits fork_result.splits outcome.splits
        dest: wait_loop_Stopped_live)
qed

lemma loop_body_Stopped_live:
  assumes "loop_body os (GotLine line) w = Stopped s w'"
  shows "w_allocs w \<in> set (w_live w')"
proof -
  let ?w1 = "getline_buffer (printf ''> '' w)"
  have l1: "w_allocs w \<in> set (w_live ?w1)"
    by (simp add: getline_buffer_def printf_def)
  show ?thesis
  proof (cases "lsh_split_line os line ?w1")
    case (Stopped s2 w2)
    with assms have "w' = w2" by (simp add: loop_body_GotLine)
    with lsh_split_line_Stopped_live [OF Stopped] l1 show ?thesis by auto
  next
    case (Done r w2)
    obtain ap cells where r: "r = (ap, cells)" by (cases r)
    from lsh_split_line_frame [OF Done [unfolded r]] l1
    have l2: "w_allocs w \<in> set (w_live w2)" by simp
    from lsh_split_line_Done(4) [OF Done [unfolded r]]
    obtain args where av: "c_argv cells = Some args" by blast
    from assms Done r av have "lsh_execute os args w2 = Stopped s w'"
      by (auto simp: loop_body_GotLine split: outcome.splits)
    from lsh_execute_Stopped_live [OF this] l2 show ?thesis by simp
  qed
qed

subsection \<open>A sample iteration\<close>

lemma sample_split:
  assumes "alloc_ok os 1"
  shows "lsh_split_line os ''cd /tmp\<newline>'' (getline_buffer (printf ''> '' w_start)) =
    Done (1, [Tok ''cd'', Tok ''/tmp'', Null] @ replicate 61 Garbage)
      (w_start\<lparr>w_stdout := ''> '', w_live := [1, 0], w_allocs := 2\<rparr>)"
  using assms
  by (simp add: lsh_split_line_unfold w_start_def getline_buffer_def printf_def
      strtok_def LSH_TOK_DELIM_def NUL_def at_end_def LSH_TOK_BUFSIZE_def INT_MAX_def
      eval_nat_numeral)

lemma sample_iteration:
  assumes "alloc_ok os 1" "chdir_to os ''/'' ''/tmp'' = Some ''/tmp''"
  shows "loop_body os (GotLine ''cd /tmp\<newline>'') w_start = Done 1 w_after_cd"
  unfolding loop_body_GotLine sample_split [OF assms(1)]
  using assms(2) by (simp add: execute_loop_unfold lsh_cd_def free_def w_start_def w_after_cd_def)

lemma sample_prefix:
  assumes "alloc_ok os 1" "chdir_to os ''/'' ''/tmp'' = Some ''/tmp''"
  shows "run_prefix os [GotLine ''cd /tmp\<newline>''] w_start = Some w_after_cd"
  by (simp add: sample_iteration [OF assms])

section \<open>The claims about dispatch, the loop and the program\<close>

text \<open>
  C9, as stated, fails in its last part: the loop also stops when reading fails. On
  a read failure at the first prompt the shell ends with exit code 1, although no
  \<^verbatim>\<open>exit\<close> command was dispatched and the end of the input was not reached.
\<close>

theorem loop_stops_on_read_failure:
  "lsh_loop os_sample [ReadFailure False] w_start =
     Stopped (Exit 1) (w_start\<lparr>w_stdout := ''> '', w_stderr := [Perror ''readline'']\<rparr>)"
  by (simp add: loop_body_def printf_def perror_def w_start_def EXIT_FAILURE_def)

text \<open>
  C9, amended. For every non-empty command whose first token is not \<^verbatim>\<open>exit\<close>, the
  status that \<^verbatim>\<open>lsh_execute\<close> returns is CONTINUE, and it does return for \<^verbatim>\<open>cd\<close>
  and \<^verbatim>\<open>help\<close>, when \<^verbatim>\<open>fork\<close> fails, and when the child reaches a terminal state.
  TERMINATE is returned only for a command whose first token is \<^verbatim>\<open>exit\<close>. So the
  loop ends by its own test only after a line whose first token is \<^verbatim>\<open>exit\<close>; the
  process ends inside the loop with code 0 only at the end of the input, and every
  other exit from inside the loop is a failure with code 1. For lines shorter than
  2 GiB the loop never leaves defined behaviour.
\<close>

theorem lsh_execute_continue:
  "(a0 \<noteq> ''exit'' \<and> lsh_execute os (a0 # as) w = Done st w' \<longrightarrow> st = CONTINUE)
   \<and> (lsh_execute os args w = Done TERMINATE w' \<longrightarrow> (\<exists>rest. args = ''exit'' # rest))
   \<and> (a0 \<noteq> ''exit'' \<and>
        (a0 = ''cd'' \<or> a0 = ''help'' \<or> fork_res os (w_forks w) = ForkFailed \<or>
         fork_res os (w_forks w) = InParent st0 evs \<and> Some s \<in> set evs \<and>
           (WIFEXITED s \<or> WIFSIGNALED s)) \<longrightarrow>
        (\<exists>w1. lsh_execute os (a0 # as) w = Done CONTINUE w1))
   \<and> (lsh_loop os stdin w = Done u w' \<longrightarrow>
        (\<exists>line. GotLine line \<in> set stdin \<and> first_token line = Some ''exit''))
   \<and> (lsh_loop os stdin w = Stopped (Exit c) w' \<longrightarrow>
        c = 0 \<and> (\<exists>b. EndOfInput b \<in> set stdin) \<or> c = 1)
   \<and> ((\<forall>line. GotLine line \<in> set stdin \<longrightarrow> length line + LSH_TOK_BUFSIZE \<le> INT_MAX) \<longrightarrow>
        lsh_loop os stdin w \<noteq> Stopped Undefined w')"
proof (intro conjI impI)
  assume "a0 \<noteq> ''exit'' \<and> lsh_execute os (a0 # as) w = Done st w'"
  then show "st = CONTINUE"
    using lsh_execute_Done [of os "a0 # as" w st w'] by (auto simp: CONTINUE_def)
next
  assume "lsh_execute os args w = Done TERMINATE w'"
  then show "\<exists>rest. args = ''exit'' # rest"
    using lsh_execute_Done [of os args w TERMINATE w'] by (auto simp: TERMINATE_def)
next
  assume a: "a0 \<noteq> ''exit'' \<and>
      (a0 = ''cd'' \<or> a0 = ''help'' \<or> fork_res os (w_forks w) = ForkFailed \<or>
       fork_res os (w_forks w) = InParent st0 evs \<and> Some s \<in> set evs \<and>
         (WIFEXITED s \<or> WIFSIGNALED s))"
  show "\<exists>w1. lsh_execute os (a0 # as) w = Done CONTINUE w1"
  proof (cases "a0 = ''cd'' \<or> a0 = ''help''")
    case True
    then show ?thesis
      using lsh_cd_returns [of os a0 as w]
      by (auto simp: execute_loop_unfold lsh_help_Done CONTINUE_def)
  next
    case False
    with a have l: "lsh_execute os (a0 # as) w = lsh_launch os (a0 # as) w"
      by (simp add: execute_loop_unfold)
    from a False consider "fork_res os (w_forks w) = ForkFailed"
      | "fork_res os (w_forks w) = InParent st0 evs" "Some s \<in> set evs"
        "WIFEXITED s \<or> WIFSIGNALED s"
      by blast
    then show ?thesis
    proof cases
      case 1
      then show ?thesis
        unfolding l by (simp add: lsh_launch_def CONTINUE_def)
    next
      case 2
      from wait_loop_returns [OF 2(2,3)]
      obtain st' w2 where "wait_loop st0 evs (w\<lparr>w_forks := Suc (w_forks w)\<rparr>) = Done st' w2"
        by blast
      with 2(1) show ?thesis
        unfolding l by (simp add: lsh_launch_def CONTINUE_def)
    qed
  qed
next
  assume "lsh_loop os stdin w = Done u w'"
  then show "\<exists>line. GotLine line \<in> set stdin \<and> first_token line = Some ''exit''"
    using lsh_loop_Done by blast
next
  assume "lsh_loop os stdin w = Stopped (Exit c) w'"
  then show "c = 0 \<and> (\<exists>b. EndOfInput b \<in> set stdin) \<or> c = 1"
    using lsh_loop_Exit [of os stdin w c w']
    by (auto simp: EXIT_SUCCESS_def EXIT_FAILURE_def)
next
  assume "\<forall>line. GotLine line \<in> set stdin \<longrightarrow> length line + LSH_TOK_BUFSIZE \<le> INT_MAX"
  then show "lsh_loop os stdin w \<noteq> Stopped Undefined w'"
    by (rule lsh_loop_defined)
qed

theorem lsh_execute_continue_witness:
  "lsh_execute os_sample [''ls'', ''-l''] w_start =
     Done CONTINUE (w_start\<lparr>w_forks := 1, w_waits := 3\<rparr>) \<and>
   (\<exists>w1. lsh_execute os_sample [''cd''] w_start = Done CONTINUE w1) \<and>
   (\<exists>w1. lsh_execute os_sample [''sleep'', ''1''] (w_start\<lparr>w_forks := 1\<rparr>) = Done CONTINUE w1) \<and>
   (\<exists>w1. lsh_loop os_sample [GotLine ''exit\<newline>''] w_start = Done () w1) \<and>
   (\<exists>line. GotLine line \<in> set [GotLine ''exit\<newline>''] \<and> first_token line = Some ''exit'')"
proof -
  have e: "lsh_execute os_sample [''ls'', ''-l''] w_start =
      Done 1 (w_start\<lparr>w_forks := 1, w_waits := 3\<rparr>)"
    by (simp add: execute_loop_unfold lsh_launch_def os_sample_def w_start_def)
  have f: "fork_res os_sample (Suc 0) = ForkFailed"
    by (simp add: os_sample_def)
  have "(1::int) = CONTINUE"
    by (rule lsh_execute_continue [where ?a0.0 = "''ls''" and as = "[''-l'']" and os = os_sample
          and w = w_start, THEN conjunct1, rule_format])
      (rule conjI, simp, rule e)
  with e have 1: "lsh_execute os_sample [''ls'', ''-l''] w_start =
      Done CONTINUE (w_start\<lparr>w_forks := 1, w_waits := 3\<rparr>)"
    by simp
  have 2: "\<exists>w1. lsh_execute os_sample [''cd''] w_start = Done CONTINUE w1"
    by (rule lsh_execute_continue [THEN conjunct2, THEN conjunct2, THEN conjunct1, rule_format])
      simp
  have 3: "\<exists>w1. lsh_execute os_sample [''sleep'', ''1''] (w_start\<lparr>w_forks := 1\<rparr>) =
      Done CONTINUE w1"
    by (rule lsh_execute_continue [THEN conjunct2, THEN conjunct2, THEN conjunct1, rule_format])
      (simp add: f)
  have t: "first_token ''exit\<newline>'' = Some ''exit''"
    by (simp add: first_token_def strtok_def LSH_TOK_DELIM_def NUL_def at_end_def)
  have "\<exists>w1. loop_body os_sample (GotLine ''exit\<newline>'') w_start = Done 0 w1"
    by (rule exit_line [OF t]) (simp_all add: os_sample_def LSH_TOK_BUFSIZE_def INT_MAX_def)
  then obtain w1 where l: "lsh_loop os_sample [GotLine ''exit\<newline>''] w_start = Done () w1"
    by auto
  then have 4: "\<exists>w1. lsh_loop os_sample [GotLine ''exit\<newline>''] w_start = Done () w1"
    by blast
  have 5: "\<exists>line. GotLine line \<in> set [GotLine ''exit\<newline>''] \<and> first_token line = Some ''exit''"
    by (rule lsh_execute_continue [THEN conjunct2, THEN conjunct2, THEN conjunct2,
          THEN conjunct1, rule_format]) (rule l)
  from 1 2 3 4 5 show ?thesis by (intro conjI)
qed

text \<open>
  C3. Let the iterations for the answers \<open>pre\<close> of the standard input all return
  CONTINUE and lead to the state \<open>w1\<close>. If the next answer is the end of the input,
  the program ends with exit code 0. If it is a line whose first token is \<^verbatim>\<open>exit\<close>
  (and memory suffices to tokenize it), the program ends with exit code 0. If it is
  a read failure, the program ends with exit code 1 after \<^verbatim>\<open>perror("readline")\<close>. If
  it is a line and the tokenizer stops, which it does only when an allocation request
  fails, the program ends with exit code 1, the last thing written to the standard
  error is \<^verbatim>\<open>lsh: allocation error\<close>, and the failed request is the last one made; in
  particular so when \<^verbatim>\<open>malloc\<close> fails. In both fatal cases the result does not depend
  on the rest of the input: nothing is read or requested again.
\<close>

theorem main_exit_codes:
  assumes "run_prefix os pre w = Some w1"
  shows "main os (pre @ EndOfInput b # rest) w =
      (Exit 0, if b then getline_buffer (printf ''> '' w1) else printf ''> '' w1)
    \<and> (first_token line = Some ''exit'' \<and> (\<forall>n \<ge> w_allocs w1. alloc_ok os n) \<and>
        length line + LSH_TOK_BUFSIZE \<le> INT_MAX \<longrightarrow>
        fst (main os (pre @ GotLine line # rest) w) = Exit 0)
    \<and> main os (pre @ ReadFailure b # rest) w =
        (Exit 1, perror ''readline''
           (if b then getline_buffer (printf ''> '' w1) else printf ''> '' w1))
    \<and> (length line + LSH_TOK_BUFSIZE \<le> INT_MAX \<and>
        lsh_split_line os line (getline_buffer (printf ''> '' w1)) = Stopped s w2 \<longrightarrow>
        main os (pre @ GotLine line # rest) w = (Exit 1, w2) \<and>
        w_stderr w2 = w_stderr w1 @ [Text ''lsh: allocation error\<newline>''] \<and>
        \<not> alloc_ok os (w_allocs w2 - 1))
    \<and> (\<not> alloc_ok os (Suc (w_allocs w1)) \<longrightarrow>
        main os (pre @ GotLine line # rest) w =
          (Exit 1, w1\<lparr>w_stdout := w_stdout w1 @ ''> '',
                      w_stderr := w_stderr w1 @ [Text ''lsh: allocation error\<newline>''],
                      w_live := w_allocs w1 # w_live w1,
                      w_allocs := Suc (Suc (w_allocs w1))\<rparr>))"
proof (intro conjI impI)
  note p = main_prefix [OF assms]
  show "main os (pre @ EndOfInput b # rest) w =
      (Exit 0, if b then getline_buffer (printf ''> '' w1) else printf ''> '' w1)"
    unfolding p by (simp add: main_step loop_body_def EXIT_SUCCESS_def)
  show "main os (pre @ ReadFailure b # rest) w =
      (Exit 1, perror ''readline''
         (if b then getline_buffer (printf ''> '' w1) else printf ''> '' w1))"
    unfolding p by (simp add: main_step loop_body_def EXIT_FAILURE_def)
  {
    assume "first_token line = Some ''exit'' \<and> (\<forall>n \<ge> w_allocs w1. alloc_ok os n) \<and>
        length line + LSH_TOK_BUFSIZE \<le> INT_MAX"
    then obtain w' where "loop_body os (GotLine line) w1 = Done 0 w'"
      using exit_line [of line w1 os] by blast
    then show "fst (main os (pre @ GotLine line # rest) w) = Exit 0"
      unfolding p by (simp add: main_step EXIT_SUCCESS_def)
  }
  {
    assume a: "length line + LSH_TOK_BUFSIZE \<le> INT_MAX \<and>
        lsh_split_line os line (getline_buffer (printf ''> '' w1)) = Stopped s w2"
    then have st: "lsh_split_line os line (getline_buffer (printf ''> '' w1)) = Stopped s w2"
      by simp
    from a lsh_split_line_Stopped [OF st]
    have s: "s = Exit EXIT_FAILURE"
      and e: "w_stderr w2 = w_stderr w1 @ [Text ''lsh: allocation error\<newline>'']"
      and f: "\<not> alloc_ok os (w_allocs w2 - 1)"
      by (simp_all add: getline_buffer_def printf_def)
    from st s show "main os (pre @ GotLine line # rest) w = (Exit 1, w2)"
      unfolding p by (simp add: main_step loop_body_GotLine EXIT_FAILURE_def)
    from e show "w_stderr w2 = w_stderr w1 @ [Text ''lsh: allocation error\<newline>'']" .
    from f show "\<not> alloc_ok os (w_allocs w2 - 1)" .
  }
  {
    assume "\<not> alloc_ok os (Suc (w_allocs w1))"
    then show "main os (pre @ GotLine line # rest) w =
          (Exit 1, w1\<lparr>w_stdout := w_stdout w1 @ ''> '',
                      w_stderr := w_stderr w1 @ [Text ''lsh: allocation error\<newline>''],
                      w_live := w_allocs w1 # w_live w1,
                      w_allocs := Suc (Suc (w_allocs w1))\<rparr>)"
      unfolding p
      by (simp add: main_step loop_body_GotLine lsh_split_line_unfold getline_buffer_def
          printf_def EXIT_FAILURE_def)
  }
qed

theorem main_exit_codes_witness:
  "main os_sample [GotLine ''cd /tmp\<newline>'', EndOfInput False] w_start =
     (Exit 0, w_after_cd\<lparr>w_stdout := ''> > ''\<rparr>) \<and>
   fst (main os_sample [GotLine ''cd /tmp\<newline>'', GotLine ''exit 7\<newline>''] w_start) = Exit 0 \<and>
   main os_sample [GotLine ''cd /tmp\<newline>'', ReadFailure False, GotLine ''help\<newline>''] w_start =
     (Exit 1, w_after_cd\<lparr>w_stdout := ''> > '', w_stderr := [Perror ''readline'']\<rparr>) \<and>
   main os_short_memory [GotLine ''cd /tmp\<newline>'', GotLine ''ls\<newline>'', GotLine ''help\<newline>''] w_start =
     (Exit 1, w_after_cd\<lparr>w_stdout := ''> > '', w_stderr := [Text ''lsh: allocation error\<newline>''],
        w_live := [2], w_allocs := 4\<rparr>) \<and>
   \<not> alloc_ok os_short_memory 3"
proof -
  have p: "run_prefix os_sample [GotLine ''cd /tmp\<newline>''] w_start = Some w_after_cd"
    by (rule sample_prefix) (simp_all add: os_sample_def)
  have q: "run_prefix os_short_memory [GotLine ''cd /tmp\<newline>''] w_start = Some w_after_cd"
    by (rule sample_prefix) (simp_all add: os_short_memory_def os_sample_def)
  have f: "first_token ''exit 7\<newline>'' = Some ''exit''"
    by (simp add: first_token_def strtok_def LSH_TOK_DELIM_def NUL_def at_end_def)
  have a: "\<forall>n \<ge> w_allocs w_after_cd. alloc_ok os_sample n"
    by (simp add: os_sample_def)
  have b: "length ''exit 7\<newline>'' + LSH_TOK_BUFSIZE \<le> INT_MAX"
    by (simp add: LSH_TOK_BUFSIZE_def INT_MAX_def)
  have m: "\<not> alloc_ok os_short_memory (Suc (w_allocs w_after_cd))"
    by (simp add: os_short_memory_def w_after_cd_def)
  note t = main_exit_codes [OF p, where line = "''exit 7\<newline>''"]
  from t [of False "[]"]
  have 1: "main os_sample [GotLine ''cd /tmp\<newline>'', EndOfInput False] w_start =
     (Exit 0, w_after_cd\<lparr>w_stdout := ''> > ''\<rparr>)"
    by (simp add: printf_def w_after_cd_def)
  from t [of _ "[]"] f a b
  have 2: "fst (main os_sample [GotLine ''cd /tmp\<newline>'', GotLine ''exit 7\<newline>''] w_start) = Exit 0"
    by simp
  from t [of False "[GotLine ''help\<newline>'']"]
  have 3: "main os_sample [GotLine ''cd /tmp\<newline>'', ReadFailure False, GotLine ''help\<newline>''] w_start =
     (Exit 1, w_after_cd\<lparr>w_stdout := ''> > '', w_stderr := [Perror ''readline'']\<rparr>)"
    by (simp add: printf_def perror_def w_after_cd_def w_start_def)
  from main_exit_codes [OF q, where line = "''ls\<newline>''" and rest = "[GotLine ''help\<newline>'']"] m
  have 4: "main os_short_memory [GotLine ''cd /tmp\<newline>'', GotLine ''ls\<newline>'', GotLine ''help\<newline>''] w_start =
     (Exit 1, w_after_cd\<lparr>w_stdout := ''> > '', w_stderr := [Text ''lsh: allocation error\<newline>''],
        w_live := [2], w_allocs := 4\<rparr>)"
    by (simp add: w_after_cd_def w_start_def)
  have s: "lsh_split_line os_short_memory ''ls\<newline>'' (getline_buffer (printf ''> '' w_after_cd)) =
      Stopped (Exit 1) (w_after_cd\<lparr>w_stdout := ''> > '',
        w_stderr := [Text ''lsh: allocation error\<newline>''], w_live := [2], w_allocs := 4\<rparr>)"
    by (simp add: lsh_split_line_unfold os_short_memory_def os_sample_def getline_buffer_def
        printf_def w_after_cd_def w_start_def EXIT_FAILURE_def)
  have c: "length ''ls\<newline>'' + LSH_TOK_BUFSIZE \<le> INT_MAX"
    by (simp add: LSH_TOK_BUFSIZE_def INT_MAX_def)
  from main_exit_codes [OF q, THEN conjunct2, THEN conjunct2, THEN conjunct2, THEN conjunct1,
      rule_format, OF conjI [OF c s], of "[]"]
  have 5: "\<not> alloc_ok os_short_memory 3"
    by (simp add: w_after_cd_def)
  from 1 2 3 4 5 show ?thesis by (intro conjI)
qed

text \<open>
  C8, as stated, fails on the early termination of the program: when \<^verbatim>\<open>malloc\<close>
  fails in \<^verbatim>\<open>lsh_split_line\<close>, the process exits with the line buffer (block 0) still
  allocated; \<^verbatim>\<open>free(line)\<close> is reached only when dispatch has returned.
\<close>

theorem buffers_not_released_on_exit:
  "loop_body os_no_memory (GotLine ''ls\<newline>'') w_start =
     Stopped (Exit 1)
       (w_start\<lparr>w_stdout := ''> '', w_stderr := [Text ''lsh: allocation error\<newline>''],
          w_live := [0], w_allocs := 2\<rparr>) \<and>
   w_live w_start = []"
  by (simp add: loop_body_GotLine lsh_split_line_unfold os_no_memory_def os_sample_def
      getline_buffer_def printf_def w_start_def EXIT_FAILURE_def)

text \<open>
  C8, amended. Whenever the dispatch of an iteration returns, the line buffer and
  the token buffer acquired in that iteration have been freed when the iteration
  ends: the live heap blocks are the same as before it. So no command data persists
  from one iteration to the next, and none is left when the loop ends through
  \<^verbatim>\<open>exit\<close>. When the process stops inside an iteration after the line was read, the
  line buffer is still allocated: the program does not free it before it exits.
\<close>

theorem buffers_released:
  "(loop_body os ev w = Done status w' \<longrightarrow> w_live w' = w_live w)
   \<and> (run_prefix os pre w = Some w1 \<longrightarrow> w_live w1 = w_live w)
   \<and> (lsh_loop os stdin w = Done u w' \<longrightarrow> w_live w' = w_live w)
   \<and> (loop_body os (GotLine line) w = Stopped s w' \<longrightarrow> w_allocs w \<in> set (w_live w'))"
  using loop_body_Done [of os ev w status w'] run_prefix_live [of os pre w w1]
    lsh_loop_Done [of os stdin w u w'] loop_body_Stopped_live [of os line w s w']
  by blast

theorem buffers_released_witness:
  "loop_body os_sample (GotLine ''cd /tmp\<newline>'') w_start = Done 1 w_after_cd \<and>
   w_live w_after_cd = w_live w_start \<and>
   run_prefix os_sample [GotLine ''cd /tmp\<newline>''] w_start = Some w_after_cd \<and>
   loop_body os_no_memory (GotLine ''ls\<newline>'') w_start =
     Stopped (Exit 1)
       (w_start\<lparr>w_stdout := ''> '', w_stderr := [Text ''lsh: allocation error\<newline>''],
          w_live := [0], w_allocs := 2\<rparr>) \<and>
   w_allocs w_start \<in> set [0]"
proof -
  have i: "loop_body os_sample (GotLine ''cd /tmp\<newline>'') w_start = Done 1 w_after_cd"
    by (rule sample_iteration) (simp_all add: os_sample_def)
  have p: "run_prefix os_sample [GotLine ''cd /tmp\<newline>''] w_start = Some w_after_cd"
    by (rule sample_prefix) (simp_all add: os_sample_def)
  have x: "loop_body os_no_memory (GotLine ''ls\<newline>'') w_start =
     Stopped (Exit 1)
       (w_start\<lparr>w_stdout := ''> '', w_stderr := [Text ''lsh: allocation error\<newline>''],
          w_live := [0], w_allocs := 2\<rparr>)"
    by (simp add: loop_body_GotLine lsh_split_line_unfold os_no_memory_def os_sample_def
        getline_buffer_def printf_def w_start_def EXIT_FAILURE_def)
  have 1: "w_live w_after_cd = w_live w_start"
    by (rule buffers_released [THEN conjunct1, rule_format]) (rule i)
  have "w_allocs w_start \<in> set (w_live
      (w_start\<lparr>w_stdout := ''> '', w_stderr := [Text ''lsh: allocation error\<newline>''],
          w_live := [0], w_allocs := 2\<rparr>))"
    by (rule buffers_released [THEN conjunct2, THEN conjunct2, THEN conjunct2, rule_format])
      (rule x)
  then have 2: "w_allocs w_start \<in> set [0]"
    by simp
  from i 1 p x 2 show ?thesis by (intro conjI)
qed

end
